theory Spec2Isabelle
  imports Main "HOL-Library.AList" "HOL-Library.Sublist"
begin

section \<open>Data model of the chat store (packages/web/src/hooks/useChat.ts)\<close>

datatype Role = System | User | Assistant

text \<open>
  Modelled from the spec: the types \<open>ShownMessage\<close>, \<open>RecordedMessage\<close>,
  \<open>UnrecordedMessage\<close>, \<open>ToBeRecordedMessage\<close> and \<open>Chat\<close> are imported from the package
  \<open>generative-ai-use-cases-jp\<close>, whose declarations are not part of the sources at hand.
  A message carries the fields the hook reads or writes (\<open>role\<close>, \<open>content\<close>, \<open>llmType\<close>,
  \<open>messageId\<close>, \<open>usecase\<close>) and the two fields of the feedback request (\<open>createdDate\<close>,
  \<open>feedback\<close>); an optional property that is absent or \<open>undefined\<close> is \<open>None\<close>. All
  four message types are this one record: an unrecorded message has its optional fields
  unset. A chat is its \<open>chatId\<close> and \<open>title\<close>.
\<close>

record ShownMessage =
  role :: Role
  content :: string
  llmType :: "string option"
  messageId :: "string option"
  usecase :: "string option"
  createdDate :: "string option"
  feedback :: "string option"

record Chat =
  chatId :: string
  title :: string

text \<open>Modelled from the spec: the model catalog entry (\<open>useModel\<close> is not at hand); the
  hook reads \<open>modelId\<close> and writes \<open>sessionId\<close>.\<close>

record Model =
  modelId :: string
  sessionId :: "string option"

record ChatEntry =
  chat :: "Chat option"
  messages :: "ShownMessage list"

text \<open>
  The zustand state. A JavaScript object used as a dictionary is an association list in
  insertion order, read with \<open>map_of\<close> and written with \<open>AList.update\<close> (which
  replaces the entry of an existing key in place and appends a new key at the end).
\<close>

record ChatState =
  chats :: "(string \<times> ChatEntry) list"
  modelIds :: "(string \<times> string) list"
  loading :: "(string \<times> bool) list"

text \<open>Reading a property of \<open>undefined\<close> throws a \<open>TypeError\<close>.\<close>

datatype error = TypeError

text \<open>The parameters of \<open>predictStream\<close>, and the requests the hook sends to its
  collaborators (\<open>useChatApi\<close>), in the order it sends them.\<close>

record PredictParams =
  reqModel :: Model
  reqMessages :: "ShownMessage list"
  extraSuffix :: "string option"
  stopSequences :: "string list option"

datatype Request =
    PredictStream PredictParams
  | CreateChat
  | PredictTitle Chat "ShownMessage list"
  | CreateMessages string "ShownMessage list"
  | UpdateFeedback string string string

text \<open>
  The collaborators' answers: the model catalog, the fragments a stream yields for a
  request, the chat \<open>createChat\<close> returns, the records \<open>createMessages\<close> returns for a
  chat id and a batch, the message \<open>updateFeedback\<close> returns, and the values successive
  calls of \<open>uuid()\<close> return (the k-th call of an operation returns \<open>uuid k\<close>).
\<close>

record Collaborators =
  findModelByModelId :: "string \<Rightarrow> Model option"
  predictStream :: "PredictParams \<Rightarrow> string list"
  createChat :: Chat
  createMessages :: "string \<Rightarrow> ShownMessage list \<Rightarrow> ShownMessage list"
  updateFeedback :: "string \<Rightarrow> string \<Rightarrow> string \<Rightarrow> ShownMessage"
  uuid :: "nat \<Rightarrow> string"

section \<open>JavaScript library functions the hook uses\<close>

text \<open>\<open>Array.prototype.slice(start, end)\<close>: a negative index counts from the end.\<close>

definition slice :: "int \<Rightarrow> int \<Rightarrow> 'a list \<Rightarrow> 'a list" where
  "slice s e xs =
     (let n = int (length xs);
          k = (if s < 0 then max (n + s) 0 else min s n);
          f = (if e < 0 then max (n + e) 0 else min e n)
      in take (nat (f - k)) (drop (nat k) xs))"

text \<open>\<open>Array.prototype.indexOf\<close> and \<open>findIndex\<close>: the first index, \<open>None\<close> for -1.\<close>

fun indexOf :: "'a list \<Rightarrow> 'a \<Rightarrow> nat option" where
  "indexOf [] x = None"
| "indexOf (y # ys) x = (if y = x then Some 0 else map_option Suc (indexOf ys x))"

fun findIndex :: "('a \<Rightarrow> bool) \<Rightarrow> 'a list \<Rightarrow> nat option" where
  "findIndex P [] = None"
| "findIndex P (y # ys) = (if P y then Some 0 else map_option Suc (findIndex P ys))"

text \<open>
  \<open>s.replace(/(<output>|<\/output>)/g, '')\<close>: one scan from the left; where a marker
  starts it is skipped and the scan goes on behind it, any other character is kept.
\<close>

fun stripOutputTags :: "string \<Rightarrow> string" where
  "stripOutputTags [] = []"
| "stripOutputTags (c # cs) =
     (if prefix ''<output>'' (c # cs) then stripOutputTags (drop 8 (c # cs))
      else if prefix ''</output>'' (c # cs) then stripOutputTags (drop 9 (c # cs))
      else c # stripOutputTags cs)"

text \<open>\<open>id.match(/([^/]+)/)\<close>: the capture of the leftmost, longest run of characters
  other than the slash; \<open>None\<close> when the key has no such character.\<close>

definition matchSegment :: "string \<Rightarrow> string option" where
  "matchSegment key =
     (let rest = dropWhile (\<lambda>c. c = CHR ''/'') key
      in if rest = [] then None else Some (takeWhile (\<lambda>c. c \<noteq> CHR ''/'') rest))"

section \<open>The store's operations\<close>

definition getModelId :: "ChatState \<Rightarrow> string \<Rightarrow> string" where
  "getModelId st key = (case map_of (modelIds st) key of None \<Rightarrow> [] | Some m \<Rightarrow> m)"

definition setModelId :: "string \<Rightarrow> string \<Rightarrow> ChatState \<Rightarrow> ChatState" where
  "setModelId key newModelId st = st\<lparr>modelIds := AList.update key newModelId (modelIds st)\<rparr>"

definition setLoading :: "string \<Rightarrow> bool \<Rightarrow> ChatState \<Rightarrow> ChatState" where
  "setLoading key newLoading st = st\<lparr>loading := AList.update key newLoading (loading st)\<rparr>"

definition initChat :: "string \<Rightarrow> ShownMessage list \<Rightarrow> Chat option \<Rightarrow> ChatState \<Rightarrow> ChatState" where
  "initChat key msgs c st =
     st\<lparr>chats := AList.update key \<lparr>chat = c, messages = msgs\<rparr> (chats st)\<rparr>"

definition unrecorded :: "Role \<Rightarrow> string \<Rightarrow> ShownMessage" where
  "unrecorded r c =
     \<lparr>role = r, content = c, llmType = None, messageId = None, usecase = None,
      createdDate = None, feedback = None\<rparr>"

text \<open>\<open>systemContext m key\<close> stands for \<open>getPrompter(m).systemContext(key)\<close> (the prompt
  provider is a collaborator).\<close>

definition initChatWithSystemContext ::
  "(string \<Rightarrow> string \<Rightarrow> string) \<Rightarrow> string \<Rightarrow> ChatState \<Rightarrow> ChatState" where
  "initChatWithSystemContext systemContext key st =
     initChat key [unrecorded System (systemContext (getModelId st key) key)] None st"

text \<open>
  \<open>set(state => ({chats: produce(state.chats, draft => body(draft[id]))}))\<close>: the body
  works on the entry of the view; without an entry its first access throws, and a throw
  leaves the state as it was.
\<close>

definition produceEntry ::
  "string \<Rightarrow> (ChatEntry \<Rightarrow> error + ChatEntry) \<Rightarrow> ChatState \<Rightarrow> error + ChatState" where
  "produceEntry key body st =
     (case map_of (chats st) key of
        None \<Rightarrow> Inl TypeError
      | Some e \<Rightarrow>
          (case body e of
             Inl err \<Rightarrow> Inl err
           | Inr e' \<Rightarrow> Inr (st\<lparr>chats := AList.update key e' (chats st)\<rparr>)))"

definition setTitle :: "string \<Rightarrow> string \<Rightarrow> ChatState \<Rightarrow> error + ChatState" where
  "setTitle key t st =
     produceEntry key
       (\<lambda>e. Inr (case chat e of None \<Rightarrow> e | Some c \<Rightarrow> e\<lparr>chat := Some (c\<lparr>title := t\<rparr>)\<rparr>)) st"

definition omitUnusedMessageProperties :: "ShownMessage list \<Rightarrow> ShownMessage list" where
  "omitUnusedMessageProperties msgs = map (\<lambda>m. unrecorded (role m) (content m)) msgs"

text \<open>\<open>createChatIfNotExist(id, chat)\<close> returns the chat id, the new state and the
  requests it sent; \<open>newChat\<close> is what \<open>createChat()\<close> answers.\<close>

definition createChatIfNotExist ::
  "Chat \<Rightarrow> string \<Rightarrow> Chat option \<Rightarrow> ChatState \<Rightarrow> error + (string \<times> ChatState \<times> Request list)" where
  "createChatIfNotExist newChat key c st =
     (case c of
        Some c' \<Rightarrow> Inr (chatId c', st, [])
      | None \<Rightarrow>
          (case produceEntry key (\<lambda>e. Inr (e\<lparr>chat := Some newChat\<rparr>)) st of
             Inl err \<Rightarrow> Inl err
           | Inr st' \<Rightarrow> Inr (chatId newChat, st', [CreateChat])))"

text \<open>\<open>ensureDurable\<close>, as \<open>post\<close> calls it:
  \<open>createChatIfNotExist(id, get().chats[id].chat)\<close>.\<close>

definition ensureDurable ::
  "Chat \<Rightarrow> string \<Rightarrow> ChatState \<Rightarrow> error + (string \<times> ChatState \<times> Request list)" where
  "ensureDurable newChat key st =
     (case map_of (chats st) key of
        None \<Rightarrow> Inl TypeError
      | Some e \<Rightarrow> createChatIfNotExist newChat key (chat e) st)"

text \<open>\<open>!m.messageId\<close>: the id is unset or the empty string.\<close>

definition lacksId :: "ShownMessage \<Rightarrow> bool" where
  "lacksId m = (case messageId m of None \<Rightarrow> True | Some i \<Rightarrow> i = [])"

definition usecaseOf :: "string \<Rightarrow> string" where
  "usecaseOf key = (case matchSegment key of Some seg \<Rightarrow> ''/'' @ seg | None \<Rightarrow> key)"

text \<open>The loop of \<open>addMessageIdsToUnrecordedMessages\<close> over the messages of the view:
  the messages after it and the clones pushed to \<open>toBeRecordedMessages\<close>; \<open>n\<close> counts the
  calls of \<open>uuid()\<close> so far.\<close>

fun addIdsLoop ::
  "(nat \<Rightarrow> string) \<Rightarrow> nat \<Rightarrow> string \<Rightarrow> ShownMessage list \<Rightarrow> ShownMessage list \<times> ShownMessage list" where
  "addIdsLoop gen n key [] = ([], [])"
| "addIdsLoop gen n key (m # ms) =
     (if lacksId m then
        (let m' = m\<lparr>messageId := Some (gen n), usecase := Some (usecaseOf key)\<rparr>
         in case addIdsLoop gen (Suc n) key ms of (ms', rec) \<Rightarrow> (m' # ms', m' # rec))
      else
        (case addIdsLoop gen n key ms of (ms', rec) \<Rightarrow> (m # ms', rec)))"

definition addMessageIdsToUnrecordedMessages ::
  "(nat \<Rightarrow> string) \<Rightarrow> string \<Rightarrow> ChatState \<Rightarrow> error + (ShownMessage list \<times> ChatState)" where
  "addMessageIdsToUnrecordedMessages gen key st =
     (case map_of (chats st) key of
        None \<Rightarrow> Inl TypeError
      | Some e \<Rightarrow>
          (case addIdsLoop gen 0 key (messages e) of
             (ms', rec) \<Rightarrow>
               Inr (rec, st\<lparr>chats := AList.update key (e\<lparr>messages := ms'\<rparr>) (chats st)\<rparr>)))"

text \<open>One turn of the loop of \<open>replaceMessages\<close>, for the record \<open>m\<close>, on the messages
  of the view: the first message with the id of \<open>m\<close> is overwritten.\<close>

definition replaceOne :: "ShownMessage \<Rightarrow> ShownMessage list \<Rightarrow> ShownMessage list" where
  "replaceOne m xs =
     (case indexOf (map messageId xs) (messageId m) of
        None \<Rightarrow> xs
      | Some idx \<Rightarrow> xs[idx := m])"

fun replaceLoop :: "ShownMessage list \<Rightarrow> ShownMessage list \<Rightarrow> ShownMessage list" where
  "replaceLoop [] xs = xs"
| "replaceLoop (m # ms) xs = replaceLoop ms (replaceOne m xs)"

text \<open>With no record the loop body never runs and \<open>draft[id]\<close> is never read.\<close>

definition replaceMessages :: "string \<Rightarrow> ShownMessage list \<Rightarrow> ChatState \<Rightarrow> error + ChatState" where
  "replaceMessages key msgs st =
     (if msgs = [] then Inr st
      else produceEntry key (\<lambda>e. Inr (e\<lparr>messages := replaceLoop msgs (messages e)\<rparr>)) st)"

definition init :: "(string \<Rightarrow> string \<Rightarrow> string) \<Rightarrow> string \<Rightarrow> ChatState \<Rightarrow> ChatState" where
  "init systemContext key st =
     (case map_of (chats st) key of
        None \<Rightarrow> initChatWithSystemContext systemContext key st
      | Some e \<Rightarrow> st)"

definition clear :: "(string \<Rightarrow> string \<Rightarrow> string) \<Rightarrow> string \<Rightarrow> ChatState \<Rightarrow> ChatState" where
  "clear systemContext key st = initChatWithSystemContext systemContext key st"

text \<open>The loop of \<open>restore\<close> over \<open>Object.entries(get().chats)\<close>, the entries as they
  were when the loop started.\<close>

fun restoreLoop ::
  "(string \<Rightarrow> string \<Rightarrow> string) \<Rightarrow> Chat \<Rightarrow> (string \<times> ChatEntry) list \<Rightarrow> ChatState \<Rightarrow> ChatState" where
  "restoreLoop systemContext c [] st = st"
| "restoreLoop systemContext c ((key, val) # entries) st =
     restoreLoop systemContext c entries
       (if map_option chatId (chat val) = Some (chatId c)
        then initChatWithSystemContext systemContext key st else st)"

definition restore ::
  "(string \<Rightarrow> string \<Rightarrow> string) \<Rightarrow> string \<Rightarrow> ShownMessage list \<Rightarrow> Chat \<Rightarrow> ChatState \<Rightarrow> ChatState" where
  "restore systemContext key msgs c st =
     initChat key msgs (Some c) (restoreLoop systemContext c (chats st) st)"

definition updateSystemContext :: "string \<Rightarrow> string \<Rightarrow> ChatState \<Rightarrow> error + ChatState" where
  "updateSystemContext key ctx st =
     produceEntry key
       (\<lambda>e. Inr (case findIndex (\<lambda>m. role m = System) (messages e) of
                    None \<Rightarrow> e
                  | Some idx \<Rightarrow>
                      e\<lparr>messages := (messages e)[idx := (messages e ! idx)\<lparr>content := ctx\<rparr>]\<rparr>)) st"

text \<open>\<open>filter(...)[0].content\<close>: element 0 of an empty array is \<open>undefined\<close>, and
  reading its \<open>content\<close> throws.\<close>

definition getCurrentSystemContext :: "ChatState \<Rightarrow> string \<Rightarrow> error + string" where
  "getCurrentSystemContext st key =
     (case map_of (chats st) key of
        Some e \<Rightarrow>
          (case filter (\<lambda>m. role m = System) (messages e) of
             [] \<Rightarrow> Inl TypeError
           | m # _ \<Rightarrow> Inr (content m))
      | None \<Rightarrow> Inr [])"

definition pushMessage :: "string \<Rightarrow> Role \<Rightarrow> string \<Rightarrow> ChatState \<Rightarrow> error + ChatState" where
  "pushMessage key r c st =
     produceEntry key (\<lambda>e. Inr (e\<lparr>messages := messages e @ [unrecorded r c]\<rparr>)) st"

text \<open>\<open>popMessage\<close> returns the last message (\<open>undefined\<close> for an empty list, on which
  \<open>pop()\<close> does nothing) and the new state.\<close>

definition popMessage :: "string \<Rightarrow> ChatState \<Rightarrow> error + (ShownMessage option \<times> ChatState)" where
  "popMessage key st =
     (case map_of (chats st) key of
        None \<Rightarrow> Inl TypeError
      | Some e \<Rightarrow>
          Inr (if messages e = [] then None else Some (last (messages e)),
               st\<lparr>chats := AList.update key (e\<lparr>messages := butlast (messages e)\<rparr>) (chats st)\<rparr>))"

text \<open>
  The messages \<open>post\<close> hands on for inference, from the messages of the view after the
  user message and the assistant placeholder were pushed. On an empty list
  \<open>chatMessages[0]\<close> is \<open>undefined\<close>, whose \<open>role\<close> is read next (a throw); \<open>post\<close>
  never gets there, it has pushed two messages.
\<close>

definition inputMessages :: "bool \<Rightarrow> ShownMessage list \<Rightarrow> error + ShownMessage list" where
  "inputMessages ignoreHistory chatMessages =
     (if ignoreHistory
      then (case chatMessages of
              [] \<Rightarrow> Inl TypeError
            | m0 # _ \<Rightarrow> Inr ([m0] @ slice (- 2) (- 1) chatMessages))
      else Inr (slice 0 (- 1) chatMessages))"

text \<open>One turn of the streaming loop of \<open>post\<close>: pop the trailing message, push the
  new assistant message. \<open>pop()\<close> of an empty list is \<open>undefined\<close>, and reading its
  \<open>content\<close> throws.\<close>

definition streamStep :: "string \<Rightarrow> string \<Rightarrow> string \<Rightarrow> ChatState \<Rightarrow> error + ChatState" where
  "streamStep key llm chunk st =
     produceEntry key
       (\<lambda>e. if messages e = [] then Inl TypeError
            else Inr (e\<lparr>messages := butlast (messages e) @
                   [(unrecorded Assistant
                       (stripOutputTags (content (last (messages e)) @ chunk)))
                      \<lparr>llmType := Some llm\<rparr>]\<rparr>)) st"

text \<open>The streaming loop: the states after each \<open>set\<close>, in order, and the error that
  ended the loop, if any.\<close>

fun streamLoop ::
  "string \<Rightarrow> string \<Rightarrow> string list \<Rightarrow> ChatState \<Rightarrow> ChatState list \<times> error option" where
  "streamLoop key llm [] st = ([], None)"
| "streamLoop key llm (chunk # rest) st =
     (case streamStep key llm chunk st of
        Inl err \<Rightarrow> ([], Some err)
      | Inr st' \<Rightarrow>
          (case streamLoop key llm rest st' of (tr, err) \<Rightarrow> (st' # tr, err)))"

definition postProcessStep ::
  "string \<Rightarrow> string \<Rightarrow> (string \<Rightarrow> string) \<Rightarrow> ChatState \<Rightarrow> error + ChatState" where
  "postProcessStep key llm postProcessOutput st =
     produceEntry key
       (\<lambda>e. if messages e = [] then Inl TypeError
            else Inr (e\<lparr>messages := butlast (messages e) @
                   [(unrecorded Assistant (postProcessOutput (content (last (messages e)))))
                      \<lparr>llmType := Some llm\<rparr>]\<rparr>)) st"

text \<open>The part of \<open>post\<close> after the streaming loop. The title is predicted by a detached
  task: \<open>post\<close> sends the request and does not wait for the answer, which \<open>setTitle\<close>
  writes later.\<close>

definition postRecord ::
  "Collaborators \<Rightarrow> string \<Rightarrow> Request list \<Rightarrow> ChatState \<Rightarrow> ChatState \<times> error option \<times> Request list" where
  "postRecord api key sent st =
     (case ensureDurable (createChat api) key st of
        Inl err \<Rightarrow> (st, Some err, sent)
      | Inr (cid, st1, reqs1) \<Rightarrow>
          (case map_of (chats st1) key of
             None \<Rightarrow> (st1, Some TypeError, sent @ reqs1)
           | Some e \<Rightarrow>
               (let reqs2 = (case chat e of
                               None \<Rightarrow> []
                             | Some c \<Rightarrow>
                                 if title c = [] then
                                   [PredictTitle c (omitUnusedMessageProperties (messages e))]
                                 else [])
                in case addMessageIdsToUnrecordedMessages (uuid api) key st1 of
                     Inl err \<Rightarrow> (st1, Some err, sent @ reqs1 @ reqs2)
                   | Inr (toBeRecorded, st2) \<Rightarrow>
                       (let reqs3 = sent @ reqs1 @ reqs2 @ [CreateMessages cid toBeRecorded]
                        in case replaceMessages key (createMessages api cid toBeRecorded) st2 of
                             Inl err \<Rightarrow> (st2, Some err, reqs3)
                           | Inr st3 \<Rightarrow> (st3, None, reqs3)))))"

text \<open>
  \<open>post\<close>: the state it leaves, the exception that ended it (if any) and the requests
  it sent. The early returns log to the console and return normally. The session id is
  written into the model object the catalog returned; the catalog is a collaborator, and
  the model with the session id is what the inference request carries.
\<close>

definition post ::
  "Collaborators \<Rightarrow> string \<Rightarrow> string \<Rightarrow> bool \<Rightarrow>
   (ShownMessage list \<Rightarrow> ShownMessage list) option \<Rightarrow> (string \<Rightarrow> string) option \<Rightarrow>
   string option \<Rightarrow> string list option \<Rightarrow> string option \<Rightarrow>
   ChatState \<Rightarrow> ChatState \<times> error option \<times> Request list" where
  "post api key userContent ignoreHistory preProcessInput postProcessOutput
        extra stops session st =
     (case map_of (modelIds st) key of
        None \<Rightarrow> (st, None, [])
      | Some mid \<Rightarrow>
          if mid = [] then (st, None, [])
          else
            (case findModelByModelId api mid of
               None \<Rightarrow> (st, None, [])
             | Some model0 \<Rightarrow>
                 (let model = (case session of
                                 None \<Rightarrow> model0
                               | Some s \<Rightarrow> if s = [] then model0
                                           else model0\<lparr>sessionId := Some s\<rparr>);
                      st1 = setLoading key True st
                  in case produceEntry key
                            (\<lambda>e. Inr (e\<lparr>messages := messages e @
                                    [unrecorded User userContent, unrecorded Assistant []]\<rparr>)) st1 of
                       Inl err \<Rightarrow> (st1, Some err, [])
                     | Inr st2 \<Rightarrow>
                         (case map_of (chats st2) key of
                            None \<Rightarrow> (st2, Some TypeError, [])
                          | Some e \<Rightarrow>
                              (case inputMessages ignoreHistory (messages e) of
                                 Inl err \<Rightarrow> (st2, Some err, [])
                               | Inr selected \<Rightarrow>
                                   (let params =
                                          \<lparr>reqModel = model,
                                           reqMessages = omitUnusedMessageProperties
                                             (case preProcessInput of
                                                None \<Rightarrow> selected
                                              | Some f \<Rightarrow> f selected),
                                           extraSuffix = extra,
                                           stopSequences = stops\<rparr>;
                                        sent = [PredictStream params]
                                    in case streamLoop key (modelId model)
                                              (predictStream api params) st2 of
                                         (tr, Some err) \<Rightarrow> (last (st2 # tr), Some err, sent)
                                       | (tr, None) \<Rightarrow>
                                           (case (case postProcessOutput of
                                                    None \<Rightarrow> Inr (last (st2 # tr))
                                                  | Some f \<Rightarrow>
                                                      postProcessStep key (modelId model)
                                                        f (last (st2 # tr))) of
                                              Inl err \<Rightarrow> (last (st2 # tr), Some err, sent)
                                            | Inr st4 \<Rightarrow>
                                                postRecord api key sent
                                                  (setLoading key False st4))))))))"

definition sendFeedback ::
  "Collaborators \<Rightarrow> string \<Rightarrow> string \<Rightarrow> string \<Rightarrow> ChatState \<Rightarrow> error + (ChatState \<times> Request list)" where
  "sendFeedback api key created fb st =
     (case map_of (chats st) key of
        None \<Rightarrow> Inl TypeError
      | Some e \<Rightarrow>
          (case chat e of
             None \<Rightarrow> Inr (st, [])
           | Some c \<Rightarrow>
               (case replaceMessages key [updateFeedback api (chatId c) created fb] st of
                  Inl err \<Rightarrow> Inl err
                | Inr st' \<Rightarrow> Inr (st', [UpdateFeedback (chatId c) created fb]))))"

text \<open>The chat id a view is bound to, if any.\<close>

definition boundChatId :: "ChatState \<Rightarrow> string \<Rightarrow> string option" where
  "boundChatId st key =
     (case map_of (chats st) key of None \<Rightarrow> None | Some e \<Rightarrow> map_option chatId (chat e))"

section \<open>Sequences of operations on one view\<close>

text \<open>
  The operations that work on the messages of a view after its creation: one turn of
  the streaming loop, the assignment of ids, the merge of the records a request
  returned, a feedback update, and the direct edits \<open>pushMessage\<close> and \<open>popMessage\<close>.
  An operation that throws leaves the state as it was (the exception goes to the
  caller), so a sequence of operations always has a resulting state.
\<close>

datatype EngineOp =
    StreamFragment string string
  | AssignIds "nat \<Rightarrow> string"
  | MergeRecords "ShownMessage list"
  | Feedback Collaborators string string
  | Push Role string
  | Pop

fun applyOp :: "string \<Rightarrow> EngineOp \<Rightarrow> ChatState \<Rightarrow> ChatState" where
  "applyOp key (StreamFragment llm chunk) st =
     (case streamStep key llm chunk st of Inl err \<Rightarrow> st | Inr st' \<Rightarrow> st')"
| "applyOp key (AssignIds gen) st =
     (case addMessageIdsToUnrecordedMessages gen key st of
        Inl err \<Rightarrow> st | Inr (batch, st') \<Rightarrow> st')"
| "applyOp key (MergeRecords msgs) st =
     (case replaceMessages key msgs st of Inl err \<Rightarrow> st | Inr st' \<Rightarrow> st')"
| "applyOp key (Feedback api created fb) st =
     (case sendFeedback api key created fb st of Inl err \<Rightarrow> st | Inr (st', reqs) \<Rightarrow> st')"
| "applyOp key (Push r c) st =
     (case pushMessage key r c st of Inl err \<Rightarrow> st | Inr st' \<Rightarrow> st')"
| "applyOp key Pop st =
     (case popMessage key st of Inl err \<Rightarrow> st | Inr (popped, st') \<Rightarrow> st')"

fun runOps :: "string \<Rightarrow> EngineOp list \<Rightarrow> ChatState \<Rightarrow> ChatState" where
  "runOps key [] st = st"
| "runOps key (op # ops) st = runOps key ops (applyOp key op st)"

text \<open>
  Which messages an operation leaves in the list. Of \<open>n\<close> messages, \<open>pop()\<close> takes the
  last one away, in \<open>popMessage\<close> and in a turn of the streaming loop (which then pushes
  a new message); the other operations remove none. \<open>lengthAfter\<close> is the length of the
  list after the operation, \<open>keptPrefix ops n\<close> the number of leading messages that are
  never popped while \<open>ops\<close> run.
\<close>

fun keptAfter :: "EngineOp \<Rightarrow> nat \<Rightarrow> nat" where
  "keptAfter (StreamFragment llm chunk) n = n - 1"
| "keptAfter Pop n = n - 1"
| "keptAfter op n = n"

fun lengthAfter :: "EngineOp \<Rightarrow> nat \<Rightarrow> nat" where
  "lengthAfter (Push r c) n = Suc n"
| "lengthAfter Pop n = n - 1"
| "lengthAfter op n = n"

fun keptPrefix :: "EngineOp list \<Rightarrow> nat \<Rightarrow> nat" where
  "keptPrefix [] n = n"
| "keptPrefix (op # ops) n = min (keptAfter op n) (keptPrefix ops (lengthAfter op n))"

section \<open>Concrete values for evaluation\<close>

text \<open>The state the store is created with: \<open>chats: {}, modelIds: {}, loading: {}\<close>.\<close>

definition initialState :: ChatState where
  "initialState = \<lparr>chats = [], modelIds = [], loading = []\<rparr>"

text \<open>Collaborators that answer as in the end-to-end example: a catalog with one model,
  a stream of two fragments, a new chat with an empty title, a persistence layer that
  stamps the records it is given.\<close>

definition exampleApi :: Collaborators where
  "exampleApi =
     \<lparr>findModelByModelId =
        (\<lambda>m. if m = ''modelA'' then Some \<lparr>modelId = ''modelA'', sessionId = None\<rparr> else None),
      predictStream = (\<lambda>p. [''Hi'', '' there'']),
      createChat = \<lparr>chatId = ''c1'', title = []\<rparr>,
      createMessages = (\<lambda>cid batch. map (\<lambda>m. m\<lparr>createdDate := Some ''t1''\<rparr>) batch),
      updateFeedback =
        (\<lambda>cid created fb. (unrecorded Assistant ''Hi there'')
           \<lparr>messageId := Some ''u2'', createdDate := Some created, feedback := Some fb\<rparr>),
      uuid = (\<lambda>k. ''u'' @ replicate k CHR ''x'')\<rparr>"

text \<open>The values \<open>uuid()\<close> returns to a later caller.\<close>

definition laterUuid :: "nat \<Rightarrow> string" where
  "laterUuid k = ''v'' @ replicate k CHR ''y''"

definition exampleContext :: "string \<Rightarrow> string \<Rightarrow> string" where
  "exampleContext m key = ''You are an assistant.''"

section \<open>Association lists\<close>

lemma update_same: "map_of al k = Some v \<Longrightarrow> AList.update k v al = al"
  by (induction al) auto

lemma update_twice: "AList.update k v (AList.update k u al) = AList.update k v al"
  by (induction al) auto

text \<open>The definitions a concrete run of the store unfolds.\<close>

lemmas store_defs = post_def setLoading_def produceEntry_def inputMessages_def slice_def
  omitUnusedMessageProperties_def unrecorded_def exampleApi_def streamStep_def postRecord_def
  ensureDurable_def createChatIfNotExist_def addMessageIdsToUnrecordedMessages_def lacksId_def
  usecaseOf_def matchSegment_def replaceMessages_def replaceOne_def Let_def

section \<open>Reading the system context\<close>

text \<open>
  Claim C6. \<open>getCurrentSystemContext\<close> is said to return the empty string, without
  throwing, for a view whose conversation has no system message. It returns the empty
  string only for a view that has no conversation at all; for a conversation without a
  system message it reads \<open>content\<close> of \<open>undefined\<close>. The state below is the one
  \<open>init\<close> followed by \<open>popMessage\<close> leaves: the view has a conversation with no
  message, and the read throws.
\<close>

theorem getCurrentSystemContext_throws_without_system_message:
  "popMessage ''/chat'' (init exampleContext ''/chat'' initialState) =
     Inr (Some (unrecorded System ''You are an assistant.''),
          \<lparr>chats = [(''/chat'', \<lparr>chat = None, messages = []\<rparr>)], modelIds = [], loading = []\<rparr>) \<and>
   getCurrentSystemContext
     \<lparr>chats = [(''/chat'', \<lparr>chat = None, messages = []\<rparr>)], modelIds = [], loading = []\<rparr>
     ''/chat'' = Inl TypeError"
  by (simp add: popMessage_def init_def initialState_def initChatWithSystemContext_def
        initChat_def getModelId_def exampleContext_def getCurrentSystemContext_def)

text \<open>What the read does in each case: no conversation, a conversation without a
  system message, a conversation with one.\<close>

lemma getCurrentSystemContext_cases:
  "getCurrentSystemContext st key =
     (case map_of (chats st) key of
        None \<Rightarrow> Inr []
      | Some e \<Rightarrow>
          if \<exists>m \<in> set (messages e). role m = System
          then Inr (content (hd (filter (\<lambda>m. role m = System) (messages e))))
          else Inl TypeError)"
proof (cases "map_of (chats st) key")
  case None
  then show ?thesis by (simp add: getCurrentSystemContext_def)
next
  case (Some e)
  show ?thesis
  proof (cases "filter (\<lambda>m. role m = System) (messages e)")
    case Nil
    then have "\<not> (\<exists>m \<in> set (messages e). role m = System)"
      by (simp add: filter_empty_conv)
    with Some Nil show ?thesis by (simp add: getCurrentSystemContext_def)
  next
    case (Cons m ms)
    then have "m \<in> set (filter (\<lambda>m. role m = System) (messages e))" by simp
    then have "\<exists>m \<in> set (messages e). role m = System" by auto
    with Some Cons show ?thesis by (simp add: getCurrentSystemContext_def)
  qed
qed

section \<open>The early returns of post\<close>

text \<open>
  Claim C7. When the view has no model selected (no entry in \<open>modelIds\<close>, or the empty
  string) or the selected id is not in the catalog, \<open>post\<close> returns with the whole
  state as it was (so the loading flag and the messages of the view too), raises nothing
  and sends no request.
\<close>

theorem post_without_model_is_silent_noop:
  assumes "map_of (modelIds st) key = None \<or> map_of (modelIds st) key = Some [] \<or>
           (\<exists>mid. map_of (modelIds st) key = Some mid \<and> findModelByModelId api mid = None)"
  shows "post api key userContent ignoreHistory pre postp extra stops session st = (st, None, [])"
  using assms by (auto simp: post_def)

theorem post_without_model_is_silent_noop_witness:
  "post exampleApi ''/chat'' ''Hello'' False None None None None None
     (init exampleContext ''/chat'' initialState)
     = (init exampleContext ''/chat'' initialState, None, []) \<and>
   post exampleApi ''/chat'' ''Hello'' False None None None None None
     (setModelId ''/chat'' ''modelB'' (init exampleContext ''/chat'' initialState))
     = (setModelId ''/chat'' ''modelB'' (init exampleContext ''/chat'' initialState), None, [])"
  using post_without_model_is_silent_noop
          [of "init exampleContext ''/chat'' initialState" "''/chat''" exampleApi
              "''Hello''" False None None None None None]
        post_without_model_is_silent_noop
          [of "setModelId ''/chat'' ''modelB'' (init exampleContext ''/chat'' initialState)"
              "''/chat''" exampleApi "''Hello''" False None None None None None]
  by (simp add: init_def initialState_def initChatWithSystemContext_def initChat_def
        setModelId_def exampleApi_def)

section \<open>Feedback without a durable chat\<close>

text \<open>
  Claim C10. For a view whose conversation holds no chat, \<open>sendFeedback\<close> returns with
  the state as it was and sends no request, whatever the persistence collaborator would
  answer.
\<close>

theorem sendFeedback_without_chat_is_noop:
  assumes "map_of (chats st) key = Some e" and "chat e = None"
  shows "sendFeedback api key created fb st = Inr (st, [])"
  using assms by (simp add: sendFeedback_def)

theorem sendFeedback_without_chat_is_noop_witness:
  "sendFeedback exampleApi ''/chat'' ''t1'' ''good'' (init exampleContext ''/chat'' initialState)
     = Inr (init exampleContext ''/chat'' initialState, [])"
  using sendFeedback_without_chat_is_noop
          [of "init exampleContext ''/chat'' initialState" "''/chat''"
              "\<lparr>chat = None, messages = [unrecorded System (exampleContext [] ''/chat'')]\<rparr>"
              exampleApi "''t1''" "''good''"]
  by (simp add: init_def initialState_def initChatWithSystemContext_def initChat_def
        getModelId_def)

section \<open>Promotion to a durable chat\<close>

text \<open>
  Claim C8. \<open>createChatIfNotExist\<close> called with a chat returns its id, leaves the state
  as it was and sends no request. Called for a view without a chat it sends one creation
  request, attaches the chat it got and returns its id; a second call on the resulting
  state returns the same id, leaves that state as it is and sends nothing, whatever chat
  a creation request would have returned then.
\<close>

theorem ensureDurable_idempotent:
  "createChatIfNotExist newChat key (Some c) st = Inr (chatId c, st, []) \<and>
   (\<forall>e c'. map_of (chats st) key = Some e \<and> chat e = Some c' \<longrightarrow>
      ensureDurable newChat key st = Inr (chatId c', st, [])) \<and>
   (\<forall>e. map_of (chats st) key = Some e \<and> chat e = None \<longrightarrow>
      ensureDurable newChat key st =
        Inr (chatId newChat,
             st\<lparr>chats := AList.update key (e\<lparr>chat := Some newChat\<rparr>) (chats st)\<rparr>,
             [CreateChat]) \<and>
      (\<forall>other. ensureDurable other key
                  (st\<lparr>chats := AList.update key (e\<lparr>chat := Some newChat\<rparr>) (chats st)\<rparr>) =
         Inr (chatId newChat,
              st\<lparr>chats := AList.update key (e\<lparr>chat := Some newChat\<rparr>) (chats st)\<rparr>, [])))"
  by (auto simp: ensureDurable_def createChatIfNotExist_def produceEntry_def update_conv')

theorem ensureDurable_idempotent_witness:
  "ensureDurable \<lparr>chatId = ''c1'', title = []\<rparr> ''/chat''
     (init exampleContext ''/chat'' initialState) =
     Inr (''c1'',
          \<lparr>chats = [(''/chat'', \<lparr>chat = Some \<lparr>chatId = ''c1'', title = []\<rparr>,
                       messages = [unrecorded System ''You are an assistant.'']\<rparr>)],
           modelIds = [], loading = []\<rparr>,
          [CreateChat]) \<and>
   ensureDurable \<lparr>chatId = ''c2'', title = []\<rparr> ''/chat''
     \<lparr>chats = [(''/chat'', \<lparr>chat = Some \<lparr>chatId = ''c1'', title = []\<rparr>,
                  messages = [unrecorded System ''You are an assistant.'']\<rparr>)],
      modelIds = [], loading = []\<rparr> =
     Inr (''c1'',
          \<lparr>chats = [(''/chat'', \<lparr>chat = Some \<lparr>chatId = ''c1'', title = []\<rparr>,
                       messages = [unrecorded System ''You are an assistant.'']\<rparr>)],
           modelIds = [], loading = []\<rparr>,
          [])"
  using ensureDurable_idempotent
          [of "\<lparr>chatId = ''c1'', title = []\<rparr>" "''/chat''" "\<lparr>chatId = ''c1'', title = []\<rparr>"
              "init exampleContext ''/chat'' initialState"]
  by (simp add: init_def initialState_def initChatWithSystemContext_def initChat_def
        getModelId_def exampleContext_def)

section \<open>The usecase tag\<close>

lemma matchSegment_slashes:
  assumes "\<forall>c \<in> set key. c = CHR ''/''"
  shows "matchSegment key = None"
proof -
  have "dropWhile (\<lambda>c. c = CHR ''/'') key = []"
    using assms by (simp add: dropWhile_eq_Nil_conv)
  then show ?thesis by (simp add: matchSegment_def)
qed

lemma matchSegment_decomposed:
  assumes "set pre \<subseteq> {CHR ''/''}" and "seg \<noteq> []" and "CHR ''/'' \<notin> set seg"
    and "rest = [] \<or> hd rest = CHR ''/''"
  shows "matchSegment (pre @ seg @ rest) = Some seg"
proof -
  have d1: "dropWhile (\<lambda>c. c = CHR ''/'') (pre @ seg @ rest) =
            dropWhile (\<lambda>c. c = CHR ''/'') (seg @ rest)"
    using assms(1) by (intro dropWhile_append2) auto
  obtain x xs where seg: "seg = x # xs" using assms(2) by (cases seg) auto
  with assms(3) have "x \<noteq> CHR ''/''" by auto
  then have d2: "dropWhile (\<lambda>c. c = CHR ''/'') (seg @ rest) = seg @ rest"
    by (simp add: seg)
  have t1: "takeWhile (\<lambda>c. c \<noteq> CHR ''/'') (seg @ rest) =
            seg @ takeWhile (\<lambda>c. c \<noteq> CHR ''/'') rest"
    using assms(3) by (intro takeWhile_append2) auto
  have t2: "takeWhile (\<lambda>c. c \<noteq> CHR ''/'') rest = []"
    using assms(4) by (cases rest) auto
  show ?thesis
    using assms(2) by (simp add: matchSegment_def d1 d2 t1 t2)
qed

lemma key_decomposition:
  assumes "\<exists>c \<in> set key. c \<noteq> CHR ''/''"
  shows "\<exists>pre seg rest. key = pre @ seg @ rest \<and> set pre \<subseteq> {CHR ''/''} \<and> seg \<noteq> [] \<and>
           CHR ''/'' \<notin> set seg \<and> (rest = [] \<or> hd rest = CHR ''/'')"
proof -
  let ?pre = "takeWhile (\<lambda>c. c = CHR ''/'') key"
  let ?mid = "dropWhile (\<lambda>c. c = CHR ''/'') key"
  let ?seg = "takeWhile (\<lambda>c. c \<noteq> CHR ''/'') ?mid"
  let ?rest = "dropWhile (\<lambda>c. c \<noteq> CHR ''/'') ?mid"
  have k: "key = ?pre @ ?seg @ ?rest" by simp
  have p: "set ?pre \<subseteq> {CHR ''/''}" by (auto dest: set_takeWhileD)
  have "?mid \<noteq> []" using assms by (simp add: dropWhile_eq_Nil_conv)
  then have "hd ?mid \<noteq> CHR ''/''"
    using hd_dropWhile[of "\<lambda>c. c = CHR ''/''" key] by simp
  with \<open>?mid \<noteq> []\<close> have s: "?seg \<noteq> []" by (cases ?mid) auto
  have n: "CHR ''/'' \<notin> set ?seg" by (auto dest: set_takeWhileD)
  have r: "?rest = [] \<or> hd ?rest = CHR ''/''"
    using hd_dropWhile[of "\<lambda>c. c \<noteq> CHR ''/''" ?mid] by blast
  from k p s n r show ?thesis by blast
qed

lemma addIdsLoop_fst_Cons:
  "fst (addIdsLoop gen n key (m # ms)) =
     (if lacksId m
      then m\<lparr>messageId := Some (gen n), usecase := Some (usecaseOf key)\<rparr> #
           fst (addIdsLoop gen (Suc n) key ms)
      else m # fst (addIdsLoop gen n key ms))"
  by (simp add: Let_def split: prod.splits)

lemma addIdsLoop_snd_Cons:
  "snd (addIdsLoop gen n key (m # ms)) =
     (if lacksId m
      then m\<lparr>messageId := Some (gen n), usecase := Some (usecaseOf key)\<rparr> #
           snd (addIdsLoop gen (Suc n) key ms)
      else snd (addIdsLoop gen n key ms))"
  by (simp add: Let_def split: prod.splits)

lemma addIdsLoop_length: "length (fst (addIdsLoop gen n key ms)) = length ms"
  by (induction ms arbitrary: n) (simp_all add: addIdsLoop_fst_Cons del: addIdsLoop.simps(2))

lemma addIdsLoop_nth:
  "i < length ms \<Longrightarrow>
   fst (addIdsLoop gen n key ms) ! i =
     (if lacksId (ms ! i)
      then (ms ! i)\<lparr>messageId := Some (gen (n + length (filter lacksId (take i ms)))),
                    usecase := Some (usecaseOf key)\<rparr>
      else ms ! i)"
proof (induction ms arbitrary: n i)
  case Nil
  then show ?case by simp
next
  case (Cons m ms)
  show ?case
  proof (cases i)
    case 0
    then show ?thesis by (simp add: addIdsLoop_fst_Cons del: addIdsLoop.simps(2))
  next
    case (Suc j)
    with Cons.prems have "j < length ms" by simp
    from Cons.IH[OF this] Suc show ?thesis
      by (simp add: addIdsLoop_fst_Cons del: addIdsLoop.simps(2))
  qed
qed

lemma addIdsLoop_batch:
  "m \<in> set (snd (addIdsLoop gen n key ms)) \<Longrightarrow>
   usecase m = Some (usecaseOf key) \<and> (\<exists>k. messageId m = Some (gen k)) \<and>
   m \<in> set (fst (addIdsLoop gen n key ms))"
proof (induction ms arbitrary: n)
  case Nil
  then show ?case by simp
next
  case (Cons a ms)
  show ?case
  proof (cases "lacksId a")
    case False
    with Cons.prems have "m \<in> set (snd (addIdsLoop gen n key ms))"
      by (simp add: addIdsLoop_snd_Cons del: addIdsLoop.simps(2))
    from Cons.IH[OF this] False show ?thesis
      by (simp add: addIdsLoop_fst_Cons del: addIdsLoop.simps(2))
  next
    case True
    with Cons.prems consider
      (new) "m = a\<lparr>messageId := Some (gen n), usecase := Some (usecaseOf key)\<rparr>"
      | (old) "m \<in> set (snd (addIdsLoop gen (Suc n) key ms))"
      by (auto simp: addIdsLoop_snd_Cons simp del: addIdsLoop.simps(2))
    then show ?thesis
    proof cases
      case new
      have "\<exists>k. Some (gen n) = Some (gen k)" by blast
      with new True show ?thesis
        by (simp add: addIdsLoop_fst_Cons del: addIdsLoop.simps(2))
    next
      case old
      from Cons.IH[OF this] True show ?thesis
        by (simp add: addIdsLoop_fst_Cons del: addIdsLoop.simps(2))
    qed
  qed
qed

lemma addIdsLoop_no_lack:
  "\<forall>m \<in> set ms. \<not> lacksId m \<Longrightarrow> addIdsLoop gen n key ms = (ms, [])"
  by (induction ms arbitrary: n) simp_all

lemma addMessageIds_result:
  assumes "map_of (chats st) key = Some e"
  shows "addMessageIdsToUnrecordedMessages gen key st =
           Inr (snd (addIdsLoop gen 0 key (messages e)),
                st\<lparr>chats := AList.update key
                   (e\<lparr>messages := fst (addIdsLoop gen 0 key (messages e))\<rparr>) (chats st)\<rparr>)"
  using assms by (simp add: addMessageIdsToUnrecordedMessages_def split: prod.splits)

text \<open>
  Claim C4. The tag given to a newly identified message is computed from the view key
  alone. When the key has a character other than the slash, the key is some slashes, then
  a longest run \<open>seg\<close> of non-slash characters (its first path segment), then nothing or
  a slash and more; the tag is that segment in path form, \<open>/seg\<close> (for \<open>/chat/sub\<close> it
  is \<open>/chat\<close>). When the key has no such character (it is empty or all slashes) the tag
  is the whole key. Every message of the submitted batch, and every message of the view
  that lacked an id, carries this tag.
\<close>

theorem usecase_tag_is_first_path_segment:
  "((\<forall>c \<in> set key. c = CHR ''/'') \<longrightarrow> usecaseOf key = key) \<and>
   ((\<exists>c \<in> set key. c \<noteq> CHR ''/'') \<longrightarrow>
      (\<exists>pre seg rest. key = pre @ seg @ rest \<and> set pre \<subseteq> {CHR ''/''} \<and> seg \<noteq> [] \<and>
         CHR ''/'' \<notin> set seg \<and> (rest = [] \<or> hd rest = CHR ''/'') \<and>
         usecaseOf key = CHR ''/'' # seg)) \<and>
   (\<forall>e. map_of (chats st) key = Some e \<longrightarrow>
      (\<exists>batch st' e'.
         addMessageIdsToUnrecordedMessages gen key st = Inr (batch, st') \<and>
         map_of (chats st') key = Some e' \<and>
         length (messages e') = length (messages e) \<and>
         (\<forall>m \<in> set batch. usecase m = Some (usecaseOf key)) \<and>
         (\<forall>i < length (messages e).
            lacksId (messages e ! i) \<longrightarrow> usecase (messages e' ! i) = Some (usecaseOf key))))"
proof (intro conjI impI allI)
  assume "\<forall>c \<in> set key. c = CHR ''/''"
  then show "usecaseOf key = key"
    by (simp add: usecaseOf_def matchSegment_slashes)
next
  assume "\<exists>c \<in> set key. c \<noteq> CHR ''/''"
  from key_decomposition[OF this] obtain pre seg rest where
    d: "key = pre @ seg @ rest" "set pre \<subseteq> {CHR ''/''}" "seg \<noteq> []"
       "CHR ''/'' \<notin> set seg" "rest = [] \<or> hd rest = CHR ''/''"
    by blast
  have "matchSegment (pre @ seg @ rest) = Some seg"
    using d(2-5) by (rule matchSegment_decomposed)
  with d(1) have "usecaseOf key = CHR ''/'' # seg" by (simp add: usecaseOf_def)
  with d show "\<exists>pre seg rest. key = pre @ seg @ rest \<and> set pre \<subseteq> {CHR ''/''} \<and> seg \<noteq> [] \<and>
         CHR ''/'' \<notin> set seg \<and> (rest = [] \<or> hd rest = CHR ''/'') \<and>
         usecaseOf key = CHR ''/'' # seg"
    by blast
next
  fix e assume e: "map_of (chats st) key = Some e"
  let ?ms = "fst (addIdsLoop gen 0 key (messages e))"
  let ?batch = "snd (addIdsLoop gen 0 key (messages e))"
  let ?e' = "e\<lparr>messages := ?ms\<rparr>"
  let ?st' = "st\<lparr>chats := AList.update key ?e' (chats st)\<rparr>"
  have 1: "addMessageIdsToUnrecordedMessages gen key st = Inr (?batch, ?st')"
    using e by (rule addMessageIds_result)
  have 2: "map_of (chats ?st') key = Some ?e'" by (simp add: update_conv')
  have 3: "length (messages ?e') = length (messages e)" by (simp add: addIdsLoop_length)
  have 4: "\<forall>m \<in> set ?batch. usecase m = Some (usecaseOf key)"
    using addIdsLoop_batch by blast
  have 5: "\<forall>i < length (messages e).
            lacksId (messages e ! i) \<longrightarrow> usecase (messages ?e' ! i) = Some (usecaseOf key)"
    by (simp add: addIdsLoop_nth)
  from 1 2 3 4 5 show "\<exists>batch st' e'.
         addMessageIdsToUnrecordedMessages gen key st = Inr (batch, st') \<and>
         map_of (chats st') key = Some e' \<and>
         length (messages e') = length (messages e) \<and>
         (\<forall>m \<in> set batch. usecase m = Some (usecaseOf key)) \<and>
         (\<forall>i < length (messages e).
            lacksId (messages e ! i) \<longrightarrow> usecase (messages e' ! i) = Some (usecaseOf key))"
    by blast
qed

theorem usecase_tag_is_first_path_segment_witness:
  "usecaseOf ''/chat/sub'' = ''/chat'' \<and> usecaseOf ''//'' = ''//'' \<and>
   addMessageIdsToUnrecordedMessages (uuid exampleApi) ''/chat/sub''
     \<lparr>chats = [(''/chat/sub'', \<lparr>chat = None, messages = [unrecorded User ''Hello'']\<rparr>)],
      modelIds = [], loading = []\<rparr> =
     Inr ([(unrecorded User ''Hello'')\<lparr>messageId := Some ''u'', usecase := Some ''/chat''\<rparr>],
          \<lparr>chats = [(''/chat/sub'',
             \<lparr>chat = None,
                messages = [(unrecorded User ''Hello'')
                              \<lparr>messageId := Some ''u'', usecase := Some ''/chat''\<rparr>]\<rparr>)],
           modelIds = [], loading = []\<rparr>)"
  using usecase_tag_is_first_path_segment
          [of "''/chat/sub''"
              "\<lparr>chats = [(''/chat/sub'', \<lparr>chat = None, messages = [unrecorded User ''Hello'']\<rparr>)],
                modelIds = [], loading = []\<rparr>" "uuid exampleApi"]
        usecase_tag_is_first_path_segment [of "''//''" initialState "uuid exampleApi"]
  by (simp add: store_defs)

section \<open>The messages sent for inference\<close>

lemma slice_all_but_last: "slice 0 (- 1) (xs @ [a]) = xs"
  by (simp add: slice_def)

lemma slice_second_to_last: "slice (- 2) (- 1) (xs @ [u, a]) = [u]"
  by (simp add: slice_def)

lemma inputMessages_after_push:
  "inputMessages ih (old @ [u, a]) =
     Inr (if ih then [hd (old @ [u]), u] else old @ [u])"
proof (cases ih)
  case False
  have "slice 0 (- 1) ((old @ [u]) @ [a]) = old @ [u]" by (rule slice_all_but_last)
  with False show ?thesis by (simp add: inputMessages_def)
next
  case True
  have "slice (- 2) (- 1) (old @ [u, a]) = [u]" by (rule slice_second_to_last)
  with True show ?thesis by (cases old) (simp_all add: inputMessages_def)
qed

lemma postRecord_requests:
  "\<exists>st' err rest. postRecord api key sent st = (st', err, sent @ rest)"
proof (cases "ensureDurable (createChat api) key st")
  case (Inl err)
  then show ?thesis by (simp add: postRecord_def)
next
  case (Inr r)
  obtain cid st1 reqs1 where r: "r = (cid, st1, reqs1)" by (cases r) auto
  show ?thesis
  proof (cases "map_of (chats st1) key")
    case None
    with Inr r show ?thesis by (simp add: postRecord_def)
  next
    case (Some e)
    show ?thesis
    proof (cases "addMessageIdsToUnrecordedMessages (uuid api) key st1")
      case (Inl err)
      with Inr r Some show ?thesis by (simp add: postRecord_def Let_def)
    next
      case q: (Inr q)
      obtain batch st2 where q': "q = (batch, st2)" by (cases q) auto
      show ?thesis
      proof (cases "replaceMessages key (createMessages api cid batch) st2")
        case (Inl err)
        with Inr r Some q q' show ?thesis by (simp add: postRecord_def Let_def)
      next
        case st3: (Inr st3)
        with Inr r Some q q' show ?thesis by (simp add: postRecord_def Let_def)
      qed
    qed
  qed
qed

lemma post_request:
  assumes m: "map_of (modelIds st) key = Some mid" "mid \<noteq> []"
      "findModelByModelId api mid = Some model0"
    and e: "map_of (chats st) key = Some e"
  shows "\<exists>st' err rest ps.
           post api key c ih pre postp extra stops session st = (st', err, PredictStream ps # rest) \<and>
           reqMessages ps =
             omitUnusedMessageProperties
               ((case pre of None \<Rightarrow> (\<lambda>x. x) | Some f \<Rightarrow> f)
                  (if ih then [hd (messages e @ [unrecorded User c]), unrecorded User c]
                   else messages e @ [unrecorded User c]))"
proof -
  define model where "model = (case session of None \<Rightarrow> model0
     | Some s \<Rightarrow> if s = [] then model0 else model0\<lparr>sessionId := Some s\<rparr>)"
  define st1 where "st1 = setLoading key True st"
  define e2 where "e2 = e\<lparr>messages := messages e @ [unrecorded User c, unrecorded Assistant []]\<rparr>"
  define st2 where "st2 = st1\<lparr>chats := AList.update key e2 (chats st1)\<rparr>"
  define selected where "selected =
     (if ih then [hd (messages e @ [unrecorded User c]), unrecorded User c]
      else messages e @ [unrecorded User c])"
  define ps where "ps = \<lparr>reqModel = model,
      reqMessages = omitUnusedMessageProperties
         (case pre of None \<Rightarrow> selected | Some f \<Rightarrow> f selected),
      extraSuffix = extra, stopSequences = stops\<rparr>"
  have p: "produceEntry key
             (\<lambda>e. Inr (e\<lparr>messages := messages e @ [unrecorded User c, unrecorded Assistant []]\<rparr>))
             st1 = Inr st2"
    using e by (simp add: produceEntry_def setLoading_def st1_def st2_def e2_def)
  have l: "map_of (chats st2) key = Some e2" by (simp add: update_conv' st2_def)
  have i: "inputMessages ih (messages e2) = Inr selected"
    using inputMessages_after_push[of ih "messages e" "unrecorded User c" "unrecorded Assistant []"]
    by (simp add: e2_def selected_def)
  obtain tr serr where s: "streamLoop key (modelId model) (predictStream api ps) st2 = (tr, serr)"
    by (cases "streamLoop key (modelId model) (predictStream api ps) st2") auto
  have unfold: "post api key c ih pre postp extra stops session st =
     (case serr of
        Some err \<Rightarrow> (last (st2 # tr), Some err, [PredictStream ps])
      | None \<Rightarrow>
          (case (case postp of
                   None \<Rightarrow> Inr (last (st2 # tr))
                 | Some f \<Rightarrow> postProcessStep key (modelId model) f (last (st2 # tr))) of
             Inl err \<Rightarrow> (last (st2 # tr), Some err, [PredictStream ps])
           | Inr st4 \<Rightarrow> postRecord api key [PredictStream ps] (setLoading key False st4)))"
    using m p l i s
    unfolding post_def Let_def model_def st1_def selected_def ps_def
    by (simp del: last.simps)
  have r: "reqMessages ps = omitUnusedMessageProperties
               ((case pre of None \<Rightarrow> (\<lambda>x. x) | Some f \<Rightarrow> f) selected)"
    by (simp add: ps_def split: option.splits)
  show ?thesis
  proof (cases serr)
    case (Some err)
    with unfold r show ?thesis by (simp add: selected_def del: last.simps)
  next
    case None
    show ?thesis
    proof (cases "case postp of
                   None \<Rightarrow> Inr (last (st2 # tr))
                 | Some f \<Rightarrow> postProcessStep key (modelId model) f (last (st2 # tr))")
      case (Inl err)
      with None unfold r show ?thesis by (simp add: selected_def del: last.simps)
    next
      case (Inr st4)
      obtain st' err rest where
        "postRecord api key [PredictStream ps] (setLoading key False st4) =
           (st', err, [PredictStream ps] @ rest)"
        using postRecord_requests by blast
      with Inr None unfold r show ?thesis by (simp add: selected_def del: last.simps)
    qed
  qed
qed

text \<open>
  Claim C5, as amended. When \<open>post\<close> gets past its early returns on a view that has a
  conversation, its first request is the inference request. Its messages are the role
  and content of what the preprocessing hook (if one is given) makes of: every message
  of the view but the trailing placeholder when \<open>ignoreHistory\<close> is false; the
  two-element list of the first message of the view and the user message just posted
  when it is true. The first message is the system message whenever the conversation
  starts with one, as every conversation made by \<open>init\<close> or \<open>clear\<close> does.
\<close>

theorem post_input_selection:
  assumes "map_of (modelIds st) key = Some mid" and "mid \<noteq> []"
    and "findModelByModelId api mid = Some model0"
    and "map_of (chats st) key = Some e"
  shows "\<exists>st' err rest ps.
           post api key c ih pre postp extra stops session st =
             (st', err, PredictStream ps # rest) \<and>
           reqMessages ps =
             omitUnusedMessageProperties
               ((case pre of None \<Rightarrow> (\<lambda>x. x) | Some f \<Rightarrow> f)
                  (if ih then [hd (messages e @ [unrecorded User c]), unrecorded User c]
                   else messages e @ [unrecorded User c])) \<and>
           (\<forall>s old. ih \<and> pre = None \<and> messages e = s # old \<longrightarrow>
              reqMessages ps = omitUnusedMessageProperties [s, unrecorded User c])"
proof -
  from post_request[OF assms, of c ih pre postp extra stops session]
  obtain st' err rest ps where
    p: "post api key c ih pre postp extra stops session st = (st', err, PredictStream ps # rest)"
    and r: "reqMessages ps =
             omitUnusedMessageProperties
               ((case pre of None \<Rightarrow> (\<lambda>x. x) | Some f \<Rightarrow> f)
                  (if ih then [hd (messages e @ [unrecorded User c]), unrecorded User c]
                   else messages e @ [unrecorded User c]))"
    by auto
  from r have "\<forall>s old. ih \<and> pre = None \<and> messages e = s # old \<longrightarrow>
              reqMessages ps = omitUnusedMessageProperties [s, unrecorded User c]"
    by simp
  with p r show ?thesis by blast
qed

theorem post_input_selection_witness:
  "hd (snd (snd (post exampleApi ''/chat'' ''Hello'' True None None None None None
     (setModelId ''/chat'' ''modelA'' (init exampleContext ''/chat'' initialState))))) =
   PredictStream
     \<lparr>reqModel = \<lparr>modelId = ''modelA'', sessionId = None\<rparr>,
      reqMessages = [unrecorded System ''You are an assistant.'', unrecorded User ''Hello''],
      extraSuffix = None, stopSequences = None\<rparr>"
  using post_input_selection
          [of "setModelId ''/chat'' ''modelA'' (init exampleContext ''/chat'' initialState)"
              "''/chat''" "''modelA''" exampleApi "\<lparr>modelId = ''modelA'', sessionId = None\<rparr>"
              "\<lparr>chat = None, messages = [unrecorded System ''You are an assistant.'']\<rparr>"
              "''Hello''" True None None None None None]
  by (simp add: store_defs setModelId_def init_def initialState_def
        initChatWithSystemContext_def initChat_def getModelId_def exampleContext_def)

text \<open>
  Claim C5 as stated fails on a conversation that does not start with a system message.
  After \<open>init\<close> and \<open>popMessage\<close> the view has no message; \<open>post\<close> with
  \<open>ignoreHistory\<close> then sends the user message twice, and no system message.
\<close>

theorem post_ignoreHistory_sends_no_system_message:
  "hd (snd (snd (post exampleApi ''/chat'' ''Hello'' True None None None None None
     \<lparr>chats = [(''/chat'', \<lparr>chat = None, messages = []\<rparr>)],
      modelIds = [(''/chat'', ''modelA'')], loading = []\<rparr>))) =
   PredictStream
     \<lparr>reqModel = \<lparr>modelId = ''modelA'', sessionId = None\<rparr>,
      reqMessages = [unrecorded User ''Hello'', unrecorded User ''Hello''],
      extraSuffix = None, stopSequences = None\<rparr>"
  by (simp add: store_defs)

section \<open>Restoring a durable chat into a view\<close>

lemma initChatWithSystemContext_fields:
  "modelIds (initChatWithSystemContext sc k st) = modelIds st"
  "loading (initChatWithSystemContext sc k st) = loading st"
  "getModelId (initChatWithSystemContext sc k st) k' = getModelId st k'"
  "map_of (chats (initChatWithSystemContext sc k st)) k' =
     (if k' = k then Some \<lparr>chat = None, messages = [unrecorded System (sc (getModelId st k) k)]\<rparr>
      else map_of (chats st) k')"
  by (simp_all add: initChatWithSystemContext_def initChat_def getModelId_def update_conv')

lemma restoreLoop_fields:
  "modelIds (restoreLoop sc c entries st) = modelIds st \<and>
   loading (restoreLoop sc c entries st) = loading st \<and>
   getModelId (restoreLoop sc c entries st) k = getModelId st k"
  by (induction entries arbitrary: st) (auto simp: initChatWithSystemContext_fields)

lemma restoreLoop_lookup:
  "map_of (chats (restoreLoop sc c entries st)) k =
     (if \<exists>v. (k, v) \<in> set entries \<and> map_option chatId (chat v) = Some (chatId c)
      then Some \<lparr>chat = None, messages = [unrecorded System (sc (getModelId st k) k)]\<rparr>
      else map_of (chats st) k)"
proof (induction entries arbitrary: st)
  case Nil
  then show ?case by simp
next
  case (Cons kv entries)
  obtain key val where kv: "kv = (key, val)" by (cases kv) auto
  show ?case
    unfolding kv restoreLoop.simps Cons.IH
    by (auto simp: initChatWithSystemContext_fields)
qed

lemma bound_entry:
  assumes "boundChatId st k = Some i"
  shows "\<exists>v. (k, v) \<in> set (chats st) \<and> map_option chatId (chat v) = Some i"
proof -
  from assms obtain v where "map_of (chats st) k = Some v" "map_option chatId (chat v) = Some i"
    by (auto simp: boundChatId_def split: option.splits)
  then show ?thesis by (blast dest: map_of_SomeD)
qed

lemma restore_lookup:
  "map_of (chats (restore sc key msgs c st)) k =
     (if k = key then Some \<lparr>chat = Some c, messages = msgs\<rparr>
      else if \<exists>v. (k, v) \<in> set (chats st) \<and> map_option chatId (chat v) = Some (chatId c)
      then Some \<lparr>chat = None, messages = [unrecorded System (sc (getModelId st k) k)]\<rparr>
      else map_of (chats st) k)"
  by (simp add: restore_def initChat_def update_conv' restoreLoop_lookup)

lemma restore_boundChatId:
  "boundChatId (restore sc key msgs c st) k =
     (if k = key then Some (chatId c)
      else if \<exists>v. (k, v) \<in> set (chats st) \<and> map_option chatId (chat v) = Some (chatId c)
      then None
      else boundChatId st k)"
  by (auto simp: boundChatId_def restore_lookup)

lemma restore_boundChatId_other:
  assumes "k \<noteq> key"
  shows "boundChatId (restore sc key msgs c st) k = None \<or>
         (boundChatId (restore sc key msgs c st) k = boundChatId st k \<and>
          boundChatId st k \<noteq> Some (chatId c))"
proof (cases "\<exists>v. (k, v) \<in> set (chats st) \<and> map_option chatId (chat v) = Some (chatId c)")
  case True
  with assms show ?thesis by (simp add: restore_boundChatId)
next
  case False
  then have "boundChatId st k \<noteq> Some (chatId c)" using bound_entry by blast
  with False assms show ?thesis by (simp add: restore_boundChatId)
qed

lemma restore_only_view:
  assumes "boundChatId (restore sc B msgs c st) k = Some (chatId c)"
  shows "k = B"
proof (rule ccontr)
  assume "k \<noteq> B"
  from restore_boundChatId_other[OF this, of sc msgs c st] assms show False by auto
qed

lemma restore_keeps_chat_ids_unique:
  assumes inv: "\<forall>k k' i. boundChatId st k = Some i \<and> boundChatId st k' = Some i \<longrightarrow> k = k'"
    and b: "boundChatId (restore sc B msgs c st) k = Some i"
           "boundChatId (restore sc B msgs c st) k' = Some i"
  shows "k = k'"
proof (cases "i = chatId c")
  case True
  with b have "k = B" "k' = B" by (auto dest: restore_only_view)
  then show ?thesis by simp
next
  case False
  with b have "k \<noteq> B" "k' \<noteq> B" by (auto simp: restore_boundChatId)
  with b have "boundChatId st k = Some i" "boundChatId st k' = Some i"
    using restore_boundChatId_other[of k B sc msgs c st]
          restore_boundChatId_other[of k' B sc msgs c st] by auto
  with inv show ?thesis by blast
qed

text \<open>
  Claim C2. Let view \<open>A\<close> be bound to the chat id of \<open>c\<close>, and let another view \<open>B\<close> be
  restored with \<open>c\<close>. Afterwards \<open>A\<close> holds the blank conversation (the system message
  of its prompt, no chat), \<open>B\<close> holds exactly the supplied messages and \<open>c\<close>, and \<open>B\<close>
  is the only view bound to that chat id. If no two views shared a chat id before, none
  do after.
\<close>

theorem restore_collapses_duplicate_views:
  assumes "A \<noteq> B" and "map_of (chats st) A = Some a"
    and "map_option chatId (chat a) = Some (chatId c)"
  shows "map_of (chats (restore sc B msgs c st)) A =
           Some \<lparr>chat = None, messages = [unrecorded System (sc (getModelId st A) A)]\<rparr> \<and>
         map_of (chats (restore sc B msgs c st)) B = Some \<lparr>chat = Some c, messages = msgs\<rparr> \<and>
         (\<forall>k. boundChatId (restore sc B msgs c st) k = Some (chatId c) \<longrightarrow> k = B) \<and>
         ((\<forall>k k' i. boundChatId st k = Some i \<and> boundChatId st k' = Some i \<longrightarrow> k = k') \<longrightarrow>
          (\<forall>k k' i. boundChatId (restore sc B msgs c st) k = Some i \<and>
                     boundChatId (restore sc B msgs c st) k' = Some i \<longrightarrow> k = k'))"
proof -
  have "(A, a) \<in> set (chats st)" using assms(2) by (rule map_of_SomeD)
  with assms(3) have "\<exists>v. (A, v) \<in> set (chats st) \<and> map_option chatId (chat v) = Some (chatId c)"
    by blast
  with assms(1) have 1: "map_of (chats (restore sc B msgs c st)) A =
           Some \<lparr>chat = None, messages = [unrecorded System (sc (getModelId st A) A)]\<rparr>"
    by (simp add: restore_lookup)
  have 2: "map_of (chats (restore sc B msgs c st)) B = Some \<lparr>chat = Some c, messages = msgs\<rparr>"
    by (simp add: restore_lookup)
  have 3: "\<forall>k. boundChatId (restore sc B msgs c st) k = Some (chatId c) \<longrightarrow> k = B"
    using restore_only_view by blast
  have 4: "(\<forall>k k' i. boundChatId st k = Some i \<and> boundChatId st k' = Some i \<longrightarrow> k = k') \<longrightarrow>
          (\<forall>k k' i. boundChatId (restore sc B msgs c st) k = Some i \<and>
                     boundChatId (restore sc B msgs c st) k' = Some i \<longrightarrow> k = k')"
    using restore_keeps_chat_ids_unique by blast
  from 1 2 3 4 show ?thesis by blast
qed

theorem restore_collapses_duplicate_views_witness:
  "restore exampleContext ''/chat/c1'' [(unrecorded User ''hi'')\<lparr>messageId := Some ''m1''\<rparr>]
     \<lparr>chatId = ''c1'', title = ''T''\<rparr>
     \<lparr>chats = [(''/chat'', \<lparr>chat = Some \<lparr>chatId = ''c1'', title = ''T''\<rparr>,
                  messages = [unrecorded System ''s'', unrecorded User ''hi'']\<rparr>)],
      modelIds = [], loading = []\<rparr> =
   \<lparr>chats = [(''/chat'', \<lparr>chat = None,
                  messages = [unrecorded System ''You are an assistant.'']\<rparr>),
              (''/chat/c1'', \<lparr>chat = Some \<lparr>chatId = ''c1'', title = ''T''\<rparr>,
                  messages = [(unrecorded User ''hi'')\<lparr>messageId := Some ''m1''\<rparr>]\<rparr>)],
      modelIds = [], loading = []\<rparr>"
  using restore_collapses_duplicate_views
          [of "''/chat''" "''/chat/c1''"
              "\<lparr>chats = [(''/chat'', \<lparr>chat = Some \<lparr>chatId = ''c1'', title = ''T''\<rparr>,
                  messages = [unrecorded System ''s'', unrecorded User ''hi'']\<rparr>)],
                modelIds = [], loading = []\<rparr>"
              "\<lparr>chat = Some \<lparr>chatId = ''c1'', title = ''T''\<rparr>,
                messages = [unrecorded System ''s'', unrecorded User ''hi'']\<rparr>"
              "\<lparr>chatId = ''c1'', title = ''T''\<rparr>" exampleContext
              "[(unrecorded User ''hi'')\<lparr>messageId := Some ''m1''\<rparr>]"]
  by (simp add: restore_def initChat_def initChatWithSystemContext_def getModelId_def
        exampleContext_def)

section \<open>The streaming loop\<close>

lemma strip_skip_open: "stripOutputTags (''<output>'' @ s) = stripOutputTags s"
  by simp

lemma strip_skip_close: "stripOutputTags (''</output>'' @ s) = stripOutputTags s"
  by simp

lemma strip_keep:
  "\<not> prefix ''<output>'' (c # cs) \<Longrightarrow> \<not> prefix ''</output>'' (c # cs) \<Longrightarrow>
   stripOutputTags (c # cs) = c # stripOutputTags cs"
  by auto

lemma strip_keep_other: "c \<noteq> CHR ''<'' \<Longrightarrow> stripOutputTags (c # cs) = c # stripOutputTags cs"
  by simp

lemma strip_partial_open:
  assumes "''<output>'' = a @ us" and "us \<noteq> []"
  shows "stripOutputTags a = a"
  using assms by (auto simp: Cons_eq_append_conv)

lemma strip_partial_close:
  assumes "''</output>'' = a @ us" and "us \<noteq> []"
  shows "stripOutputTags a = a"
  using assms by (auto simp: Cons_eq_append_conv)

lemma partial_marker:
  assumes "prefix m (a @ x)" and "\<not> prefix m a"
  shows "\<exists>us. m = a @ us \<and> us \<noteq> []"
proof -
  from assms obtain us where "m = a @ us" "prefix us x"
    by (auto simp: prefix_append)
  moreover from this assms(2) have "us \<noteq> []" by auto
  ultimately show ?thesis by blast
qed


lemma strip_length: "length (stripOutputTags s) \<le> length s"
proof (induction s rule: stripOutputTags.induct)
  case 1
  then show ?case by simp
next
  case (2 c cs)
  show ?case
  proof (cases "prefix ''<output>'' (c # cs)")
    case True
    with "2.IH"(1) have "length (stripOutputTags (drop 8 (c # cs))) \<le> length (drop 8 (c # cs))"
      by blast
    moreover have "stripOutputTags (c # cs) = stripOutputTags (drop 8 (c # cs))"
      using True by (simp del: drop_Suc_Cons)
    ultimately show ?thesis by simp
  next
    case no_open: False
    show ?thesis
    proof (cases "prefix ''</output>'' (c # cs)")
      case True
      with "2.IH"(2) no_open
      have "length (stripOutputTags (drop 9 (c # cs))) \<le> length (drop 9 (c # cs))"
        by blast
      moreover have "stripOutputTags (c # cs) = stripOutputTags (drop 9 (c # cs))"
        using True no_open by (simp del: drop_Suc_Cons)
      ultimately show ?thesis by simp
    next
      case False
      with "2.IH"(3) no_open have "length (stripOutputTags cs) \<le> length cs" by blast
      moreover have "stripOutputTags (c # cs) = c # stripOutputTags cs"
        using no_open False by (rule strip_keep)
      ultimately show ?thesis by simp
    qed
  qed
qed

lemma strip_fixed_Cons:
  assumes "stripOutputTags (c # u) = c # u"
  shows "\<not> prefix ''<output>'' (c # u) \<and> \<not> prefix ''</output>'' (c # u) \<and>
         stripOutputTags u = u"
proof -
  have no_open: "\<not> prefix ''<output>'' (c # u)"
  proof
    assume p: "prefix ''<output>'' (c # u)"
    then obtain t where t: "c # u = ''<output>'' @ t" by (auto simp: prefix_def)
    have "stripOutputTags (c # u) = stripOutputTags t"
      unfolding t by (rule strip_skip_open)
    then have "length (stripOutputTags (c # u)) \<le> length t"
      using strip_length[of t] by simp
    moreover have "length (c # u) = 8 + length t" unfolding t by simp
    ultimately show False using assms by simp
  qed
  have no_close: "\<not> prefix ''</output>'' (c # u)"
  proof
    assume p: "prefix ''</output>'' (c # u)"
    then obtain t where t: "c # u = ''</output>'' @ t" by (auto simp: prefix_def)
    have "stripOutputTags (c # u) = stripOutputTags t"
      unfolding t by (rule strip_skip_close)
    then have "length (stripOutputTags (c # u)) \<le> length t"
      using strip_length[of t] by simp
    moreover have "length (c # u) = 9 + length t" unfolding t by simp
    ultimately show False using assms by simp
  qed
  from strip_keep[OF no_open no_close] assms have "stripOutputTags u = u" by simp
  with no_open no_close show ?thesis by blast
qed

lemma strip_plain_prefix:
  "CHR ''<'' \<notin> set u \<Longrightarrow> stripOutputTags (u @ s) = u @ stripOutputTags s"
proof (induction u)
  case Nil
  then show ?case by simp
next
  case (Cons x u)
  then have "x \<noteq> CHR ''<''" and "CHR ''<'' \<notin> set u" by auto
  with Cons.IH strip_keep_other[of x "u @ s"] show ?case by simp
qed

lemma strip_prefix_extends:
  "CHR ''<'' \<notin> set u \<Longrightarrow> prefix u (stripOutputTags x @ y) \<Longrightarrow>
   prefix u (stripOutputTags (x @ y @ r))"
proof (induction x arbitrary: u rule: stripOutputTags.induct)
  case 1
  from "1.prems"(2) obtain y' where y: "y = u @ y'" by (auto simp: prefix_def)
  have "stripOutputTags (u @ y' @ r) = u @ stripOutputTags (y' @ r)"
    using "1.prems"(1) by (rule strip_plain_prefix)
  then show ?case by (simp add: y)
next
  case (2 c cs)
  show ?case
  proof (cases "prefix ''<output>'' (c # cs)")
    case True
    then obtain t where t: "c # cs = ''<output>'' @ t" by (auto simp: prefix_def)
    then have d: "drop 8 (c # cs) = t" by simp
    have s: "stripOutputTags (c # cs) = stripOutputTags t"
      unfolding t by (rule strip_skip_open)
    have e: "stripOutputTags ((c # cs) @ y @ r) = stripOutputTags (t @ y @ r)"
      unfolding t using strip_skip_open[of "t @ y @ r"] by simp
    have "prefix u (stripOutputTags (drop 8 (c # cs)) @ y)"
      unfolding d using "2.prems"(2) unfolding s .
    from "2.IH"(1)[OF True "2.prems"(1) this]
    have "prefix u (stripOutputTags (t @ y @ r))" unfolding d .
    then show ?thesis unfolding e .
  next
    case no_open: False
    show ?thesis
    proof (cases "prefix ''</output>'' (c # cs)")
      case True
      then obtain t where t: "c # cs = ''</output>'' @ t" by (auto simp: prefix_def)
      then have d: "drop 9 (c # cs) = t" by simp
      have s: "stripOutputTags (c # cs) = stripOutputTags t"
        unfolding t by (rule strip_skip_close)
      have e: "stripOutputTags ((c # cs) @ y @ r) = stripOutputTags (t @ y @ r)"
        unfolding t using strip_skip_close[of "t @ y @ r"] by simp
      have "prefix u (stripOutputTags (drop 9 (c # cs)) @ y)"
        unfolding d using "2.prems"(2) unfolding s .
      from "2.IH"(2)[OF no_open True "2.prems"(1) this]
      have "prefix u (stripOutputTags (t @ y @ r))" unfolding d .
      then show ?thesis unfolding e .
    next
      case no_close: False
      have keep: "stripOutputTags (c # cs) = c # stripOutputTags cs"
        using no_open no_close by (rule strip_keep)
      show ?thesis
      proof (cases u)
        case Nil
        then show ?thesis by simp
      next
        case (Cons x u')
        with "2.prems" keep have x: "x = c" "c \<noteq> CHR ''<''" "CHR ''<'' \<notin> set u'"
          and p: "prefix u' (stripOutputTags cs @ y)"
          by auto
        from "2.IH"(3)[OF no_open no_close x(3) p]
        have "prefix u' (stripOutputTags (cs @ y @ r))" .
        moreover have "stripOutputTags ((c # cs) @ y @ r) = c # stripOutputTags (cs @ y @ r)"
          using strip_keep_other[OF x(2), of "cs @ y @ r"] by simp
        ultimately show ?thesis by (simp add: Cons x(1))
      qed
    qed
  qed
qed


lemma strip_restrip_fixed:
  "stripOutputTags (stripOutputTags (a @ b @ r)) = stripOutputTags (a @ b @ r) \<Longrightarrow>
   stripOutputTags (stripOutputTags a @ b) = stripOutputTags (a @ b)"
proof (induction a rule: stripOutputTags.induct)
  case 1
  then show ?case by simp
next
  case (2 c cs)
  show ?case
  proof (cases "prefix ''<output>'' (c # cs)")
    case True
    then obtain t where t: "c # cs = ''<output>'' @ t" by (auto simp: prefix_def)
    then have d: "drop 8 (c # cs) = t" by simp
    have e: "stripOutputTags ((c # cs) @ b @ r) = stripOutputTags (t @ b @ r)"
      unfolding t using strip_skip_open[of "t @ b @ r"] by simp
    have "stripOutputTags (stripOutputTags (drop 8 (c # cs) @ b @ r)) =
          stripOutputTags (drop 8 (c # cs) @ b @ r)"
      unfolding d using "2.prems" unfolding e .
    from "2.IH"(1)[OF True this]
    have "stripOutputTags (stripOutputTags t @ b) = stripOutputTags (t @ b)" by (simp only: d)
    moreover have "stripOutputTags (c # cs) = stripOutputTags t"
      unfolding t by (rule strip_skip_open)
    moreover have "stripOutputTags ((c # cs) @ b) = stripOutputTags (t @ b)"
      unfolding t using strip_skip_open[of "t @ b"] by simp
    ultimately show ?thesis by (simp only:)
  next
    case no_open: False
    show ?thesis
    proof (cases "prefix ''</output>'' (c # cs)")
      case True
      then obtain t where t: "c # cs = ''</output>'' @ t" by (auto simp: prefix_def)
      then have d: "drop 9 (c # cs) = t" by simp
      have e: "stripOutputTags ((c # cs) @ b @ r) = stripOutputTags (t @ b @ r)"
        unfolding t using strip_skip_close[of "t @ b @ r"] by simp
      have "stripOutputTags (stripOutputTags (drop 9 (c # cs) @ b @ r)) =
            stripOutputTags (drop 9 (c # cs) @ b @ r)"
        unfolding d using "2.prems" unfolding e .
      from "2.IH"(2)[OF no_open True this]
      have "stripOutputTags (stripOutputTags t @ b) = stripOutputTags (t @ b)" by (simp only: d)
      moreover have "stripOutputTags (c # cs) = stripOutputTags t"
        unfolding t by (rule strip_skip_close)
      moreover have "stripOutputTags ((c # cs) @ b) = stripOutputTags (t @ b)"
        unfolding t using strip_skip_close[of "t @ b"] by simp
      ultimately show ?thesis by (simp only:)
    next
      case no_close: False
      have keep: "stripOutputTags (c # cs) = c # stripOutputTags cs"
        using no_open no_close by (rule strip_keep)
      show ?thesis
      proof (cases "prefix ''<output>'' ((c # cs) @ b @ r) \<or>
                    prefix ''</output>'' ((c # cs) @ b @ r)")
        case True
        then have "stripOutputTags (c # cs) = c # cs"
        proof
          assume "prefix ''<output>'' ((c # cs) @ b @ r)"
          from partial_marker[OF this no_open] show ?thesis
            using strip_partial_open by blast
        next
          assume "prefix ''</output>'' ((c # cs) @ b @ r)"
          from partial_marker[OF this no_close] show ?thesis
            using strip_partial_close by blast
        qed
        then show ?thesis by (simp only:)
      next
        case False
        then have far_open: "\<not> prefix ''<output>'' (c # (cs @ b @ r))"
          and far_close: "\<not> prefix ''</output>'' (c # (cs @ b @ r))" by simp_all
        have whole: "stripOutputTags ((c # cs) @ b @ r) = c # stripOutputTags (cs @ b @ r)"
          using strip_keep[OF far_open far_close] by simp
        from "2.prems" have "stripOutputTags (c # stripOutputTags (cs @ b @ r)) =
                             c # stripOutputTags (cs @ b @ r)"
          unfolding whole .
        from strip_fixed_Cons[OF this]
        have u_open: "\<not> prefix ''<output>'' (c # stripOutputTags (cs @ b @ r))"
          and u_close: "\<not> prefix ''</output>'' (c # stripOutputTags (cs @ b @ r))"
          and u_fixed: "stripOutputTags (stripOutputTags (cs @ b @ r)) =
                        stripOutputTags (cs @ b @ r)"
          by simp_all
        from "2.IH"(3)[OF no_open no_close u_fixed]
        have ih: "stripOutputTags (stripOutputTags cs @ b) = stripOutputTags (cs @ b)" .
        have near_open: "\<not> prefix ''<output>'' (c # (cs @ b))"
        proof
          assume "prefix ''<output>'' (c # (cs @ b))"
          then have "prefix ''<output>'' ((c # (cs @ b)) @ r)" by (rule prefix_prefix)
          with far_open show False by simp
        qed
        have near_close: "\<not> prefix ''</output>'' (c # (cs @ b))"
        proof
          assume "prefix ''</output>'' (c # (cs @ b))"
          then have "prefix ''</output>'' ((c # (cs @ b)) @ r)" by (rule prefix_prefix)
          with far_close show False by simp
        qed
        have left_open: "\<not> prefix ''<output>'' (c # (stripOutputTags cs @ b))"
        proof
          assume "prefix ''<output>'' (c # (stripOutputTags cs @ b))"
          then have c: "c = CHR ''<''" and p: "prefix ''output>'' (stripOutputTags cs @ b)"
            by simp_all
          have "CHR ''<'' \<notin> set ''output>''" by simp
          from strip_prefix_extends[OF this p, of r] c u_open show False by simp
        qed
        have left_close: "\<not> prefix ''</output>'' (c # (stripOutputTags cs @ b))"
        proof
          assume "prefix ''</output>'' (c # (stripOutputTags cs @ b))"
          then have c: "c = CHR ''<''" and p: "prefix ''/output>'' (stripOutputTags cs @ b)"
            by simp_all
          have "CHR ''<'' \<notin> set ''/output>''" by simp
          from strip_prefix_extends[OF this p, of r] c u_close show False by simp
        qed
        have "stripOutputTags (stripOutputTags (c # cs) @ b) =
              c # stripOutputTags (stripOutputTags cs @ b)"
          unfolding keep using strip_keep[OF left_open left_close] by simp
        also have "\<dots> = c # stripOutputTags (cs @ b)" by (simp only: ih)
        also have "\<dots> = stripOutputTags ((c # cs) @ b)"
          using strip_keep[OF near_open near_close] by simp
        finally show ?thesis .
      qed
    qed
  qed
qed

lemma accumulate_is_strip_concat:
  "stripOutputTags (stripOutputTags (p @ concat fs)) = stripOutputTags (p @ concat fs) \<Longrightarrow>
   foldl (\<lambda>c f. stripOutputTags (c @ f)) (stripOutputTags p) fs = stripOutputTags (p @ concat fs)"
proof (induction fs arbitrary: p)
  case Nil
  then show ?case by simp
next
  case (Cons f fs)
  from Cons.prems have "stripOutputTags (stripOutputTags (p @ f @ concat fs)) =
                        stripOutputTags (p @ f @ concat fs)" by simp
  then have "stripOutputTags (stripOutputTags p @ f) = stripOutputTags (p @ f)"
    by (rule strip_restrip_fixed)
  moreover from Cons.prems have "stripOutputTags (stripOutputTags ((p @ f) @ concat fs)) =
                                 stripOutputTags ((p @ f) @ concat fs)" by simp
  from Cons.IH[OF this]
  have "foldl (\<lambda>c f. stripOutputTags (c @ f)) (stripOutputTags (p @ f)) fs =
        stripOutputTags ((p @ f) @ concat fs)" .
  ultimately show ?case by simp
qed

lemma strip_plain: "CHR ''<'' \<notin> set s \<Longrightarrow> stripOutputTags s = s"
  using strip_plain_prefix[of s "[]"] by simp

lemma streamStep_result:
  assumes "map_of (chats st) key = Some e" and "messages e = ms @ [a]"
  shows "streamStep key llm chunk st =
           Inr (st\<lparr>chats := AList.update key
                  (e\<lparr>messages := ms @
                     [(unrecorded Assistant (stripOutputTags (content a @ chunk)))
                        \<lparr>llmType := Some llm\<rparr>]\<rparr>) (chats st)\<rparr>)"
  using assms by (simp add: streamStep_def produceEntry_def)

lemma streamLoop_trace:
  assumes "map_of (chats st) key = Some e" and "messages e = ms @ [a]"
  shows "\<exists>tr. streamLoop key llm fs st = (tr, None) \<and> length tr = length fs \<and>
           (\<forall>k < length fs.
              tr ! k = st\<lparr>chats := AList.update key
                  (e\<lparr>messages := ms @
                     [(unrecorded Assistant
                         (foldl (\<lambda>c f. stripOutputTags (c @ f)) (content a) (take (Suc k) fs)))
                        \<lparr>llmType := Some llm\<rparr>]\<rparr>) (chats st)\<rparr>)"
  using assms
proof (induction fs arbitrary: st e a)
  case Nil
  then show ?case by simp
next
  case (Cons f fs)
  let ?a' = "(unrecorded Assistant (stripOutputTags (content a @ f)))\<lparr>llmType := Some llm\<rparr>"
  let ?e' = "e\<lparr>messages := ms @ [?a']\<rparr>"
  let ?st' = "st\<lparr>chats := AList.update key ?e' (chats st)\<rparr>"
  have step: "streamStep key llm f st = Inr ?st'"
    using Cons.prems by (rule streamStep_result)
  have l: "map_of (chats ?st') key = Some ?e'" by (simp add: update_conv')
  have m: "messages ?e' = ms @ [?a']" by simp
  from Cons.IH[OF l m] obtain tr where
    tr: "streamLoop key llm fs ?st' = (tr, None)" "length tr = length fs"
    and nth: "\<forall>k < length fs.
              tr ! k = ?st'\<lparr>chats := AList.update key
                  (?e'\<lparr>messages := ms @
                     [(unrecorded Assistant
                         (foldl (\<lambda>c f. stripOutputTags (c @ f)) (content ?a') (take (Suc k) fs)))
                        \<lparr>llmType := Some llm\<rparr>]\<rparr>) (chats ?st')\<rparr>"
    by blast
  have loop: "streamLoop key llm (f # fs) st = (?st' # tr, None)"
    using step tr(1) by simp
  have "\<forall>k < length (f # fs).
          (?st' # tr) ! k = st\<lparr>chats := AList.update key
                  (e\<lparr>messages := ms @
                     [(unrecorded Assistant
                         (foldl (\<lambda>c f. stripOutputTags (c @ f)) (content a) (take (Suc k) (f # fs))))
                        \<lparr>llmType := Some llm\<rparr>]\<rparr>) (chats st)\<rparr>"
  proof (intro allI impI)
    fix k assume k: "k < length (f # fs)"
    show "(?st' # tr) ! k = st\<lparr>chats := AList.update key
                  (e\<lparr>messages := ms @
                     [(unrecorded Assistant
                         (foldl (\<lambda>c f. stripOutputTags (c @ f)) (content a) (take (Suc k) (f # fs))))
                        \<lparr>llmType := Some llm\<rparr>]\<rparr>) (chats st)\<rparr>"
    proof (cases k)
      case 0
      then show ?thesis by simp
    next
      case (Suc j)
      with k have "j < length fs" by simp
      with nth have "tr ! j = ?st'\<lparr>chats := AList.update key
                  (?e'\<lparr>messages := ms @
                     [(unrecorded Assistant
                         (foldl (\<lambda>c f. stripOutputTags (c @ f)) (content ?a') (take (Suc j) fs)))
                        \<lparr>llmType := Some llm\<rparr>]\<rparr>) (chats ?st')\<rparr>"
        by blast
      with Suc show ?thesis by (simp add: update_twice unrecorded_def)
    qed
  qed
  with loop tr(2) show ?case by simp
qed

text \<open>
  Claim C1, as amended. On a view whose messages end with \<open>a\<close> (in \<open>post\<close>, the
  placeholder it has just pushed), the streaming loop applied to the fragments \<open>fs\<close>
  ends without an error after exactly \<open>length fs\<close> mutations; the state after the
  mutation for fragment \<open>k\<close> differs from the start state only in the trailing message
  of the view, which is the assistant message whose content is obtained from the content
  of \<open>a\<close> by appending and stripping the fragments up to \<open>k\<close> one after the other, in
  their order. When the loop starts from the empty placeholder, the final content is the
  marker-stripped concatenation of the fragments if there is at most one fragment, or if
  that stripped concatenation holds no marker (stripping it again leaves it as it is).
\<close>

theorem streaming_accumulates_fragments:
  assumes "map_of (chats st) key = Some e" and "messages e = ms @ [a]"
  shows "\<exists>tr. streamLoop key llm fs st = (tr, None) \<and> length tr = length fs \<and>
           (\<forall>k < length fs.
              tr ! k = st\<lparr>chats := AList.update key
                  (e\<lparr>messages := ms @
                     [(unrecorded Assistant
                         (foldl (\<lambda>c f. stripOutputTags (c @ f)) (content a) (take (Suc k) fs)))
                        \<lparr>llmType := Some llm\<rparr>]\<rparr>) (chats st)\<rparr>) \<and>
           (content a = [] \<and>
              (length fs \<le> 1 \<or>
               stripOutputTags (stripOutputTags (concat fs)) = stripOutputTags (concat fs)) \<longrightarrow>
            foldl (\<lambda>c f. stripOutputTags (c @ f)) (content a) fs =
              stripOutputTags (concat fs))"
proof -
  have final: "foldl (\<lambda>c f. stripOutputTags (c @ f)) (content a) fs = stripOutputTags (concat fs)"
    if a: "content a = []"
      and fs: "length fs \<le> 1 \<or>
               stripOutputTags (stripOutputTags (concat fs)) = stripOutputTags (concat fs)"
  proof -
    from fs consider (short) "length fs \<le> 1"
      | (clean) "stripOutputTags (stripOutputTags (concat fs)) = stripOutputTags (concat fs)"
      by blast
    then show ?thesis
    proof cases
      case short
      then consider "fs = []" | f where "fs = [f]"
        by (cases fs) (auto simp: length_Suc_conv)
      then show ?thesis using a by cases simp_all
    next
      case clean
      then have "stripOutputTags (stripOutputTags ([] @ concat fs)) =
                 stripOutputTags ([] @ concat fs)" by simp
      from accumulate_is_strip_concat[OF this] a show ?thesis by simp
    qed
  qed
  from streamLoop_trace[OF assms, of llm fs] final show ?thesis by blast
qed

theorem streaming_accumulates_fragments_witness:
  "streamLoop ''/chat'' ''modelA'' [''<output>Hi'', '' there</out'', ''put>'']
     \<lparr>chats = [(''/chat'', \<lparr>chat = None,
         messages = [unrecorded System ''s'', unrecorded User ''Hello'', unrecorded Assistant []]\<rparr>)],
      modelIds = [(''/chat'', ''modelA'')], loading = [(''/chat'', True)]\<rparr> =
   ([\<lparr>chats = [(''/chat'', \<lparr>chat = None,
         messages = [unrecorded System ''s'', unrecorded User ''Hello'',
                     (unrecorded Assistant ''Hi'')\<lparr>llmType := Some ''modelA''\<rparr>]\<rparr>)],
      modelIds = [(''/chat'', ''modelA'')], loading = [(''/chat'', True)]\<rparr>,
     \<lparr>chats = [(''/chat'', \<lparr>chat = None,
         messages = [unrecorded System ''s'', unrecorded User ''Hello'',
                     (unrecorded Assistant ''Hi there</out'')\<lparr>llmType := Some ''modelA''\<rparr>]\<rparr>)],
      modelIds = [(''/chat'', ''modelA'')], loading = [(''/chat'', True)]\<rparr>,
     \<lparr>chats = [(''/chat'', \<lparr>chat = None,
         messages = [unrecorded System ''s'', unrecorded User ''Hello'',
                     (unrecorded Assistant ''Hi there'')\<lparr>llmType := Some ''modelA''\<rparr>]\<rparr>)],
      modelIds = [(''/chat'', ''modelA'')], loading = [(''/chat'', True)]\<rparr>], None) \<and>
   stripOutputTags (concat [''<output>Hi'', '' there</out'', ''put>'']) = ''Hi there''"
  using streaming_accumulates_fragments
          [of "\<lparr>chats = [(''/chat'', \<lparr>chat = None,
                  messages = [unrecorded System ''s'', unrecorded User ''Hello'',
                              unrecorded Assistant []]\<rparr>)],
                modelIds = [(''/chat'', ''modelA'')], loading = [(''/chat'', True)]\<rparr>"
              "''/chat''"
              "\<lparr>chat = None,
                messages = [unrecorded System ''s'', unrecorded User ''Hello'',
                            unrecorded Assistant []]\<rparr>"
              "[unrecorded System ''s'', unrecorded User ''Hello'']" "unrecorded Assistant []"
              "''modelA''" "[''<output>Hi'', '' there</out'', ''put>'']"]
  by (simp add: store_defs)

text \<open>
  Claim C1 as stated fails when the removal of a marker makes a new one. Each of the two
  fragments below is \<open><out\<close>, a marker, \<open>put>\<close>. The loop leaves \<open><output>\<close> after
  the first fragment and strips it together with the marker of the second: the final
  content is one \<open><output>\<close>. The concatenation with its markers stripped is
  \<open><output><output>\<close>, and stripped again it is empty.
\<close>

theorem streaming_restrips_accumulated_prefix:
  "streamLoop ''/chat'' ''modelA'' [''<out<output>put>'', ''<out<output>put>'']
     \<lparr>chats = [(''/chat'', \<lparr>chat = None,
         messages = [unrecorded System ''s'', unrecorded User ''Hello'', unrecorded Assistant []]\<rparr>)],
      modelIds = [(''/chat'', ''modelA'')], loading = [(''/chat'', True)]\<rparr> =
   ([\<lparr>chats = [(''/chat'', \<lparr>chat = None,
         messages = [unrecorded System ''s'', unrecorded User ''Hello'',
                     (unrecorded Assistant ''<output>'')\<lparr>llmType := Some ''modelA''\<rparr>]\<rparr>)],
      modelIds = [(''/chat'', ''modelA'')], loading = [(''/chat'', True)]\<rparr>,
     \<lparr>chats = [(''/chat'', \<lparr>chat = None,
         messages = [unrecorded System ''s'', unrecorded User ''Hello'',
                     (unrecorded Assistant ''<output>'')\<lparr>llmType := Some ''modelA''\<rparr>]\<rparr>)],
      modelIds = [(''/chat'', ''modelA'')], loading = [(''/chat'', True)]\<rparr>], None) \<and>
   stripOutputTags (concat [''<out<output>put>'', ''<out<output>put>'']) = ''<output><output>'' \<and>
   stripOutputTags (stripOutputTags (concat [''<out<output>put>'', ''<out<output>put>''])) = []"
  by (simp add: store_defs)

section \<open>Reconciliation: assigning ids and merging the canonical records\<close>

lemma indexOf_Some: "indexOf xs x = Some i \<Longrightarrow> i < length xs \<and> xs ! i = x"
proof (induction xs arbitrary: i)
  case Nil
  then show ?case by simp
next
  case (Cons y ys)
  show ?case
  proof (cases "y = x")
    case True
    with Cons.prems show ?thesis by simp
  next
    case False
    with Cons.prems obtain j where "indexOf ys x = Some j" "i = Suc j" by auto
    with Cons.IH[of j] show ?thesis by simp
  qed
qed

lemma replaceOne_ids: "map messageId (replaceOne m xs) = map messageId xs"
proof (cases "indexOf (map messageId xs) (messageId m)")
  case None
  then show ?thesis by (simp add: replaceOne_def)
next
  case (Some idx)
  from indexOf_Some[OF this] have "idx < length xs" "messageId (xs ! idx) = messageId m"
    by auto
  then have "(map messageId xs)[idx := messageId m] = map messageId xs"
    by (metis length_map list_update_id nth_map)
  with Some show ?thesis by (simp add: replaceOne_def map_update)
qed

lemma replaceOne_nth:
  "i < length xs \<Longrightarrow>
   replaceOne m xs ! i =
     (if indexOf (map messageId xs) (messageId m) = Some i then m else xs ! i)"
proof (cases "indexOf (map messageId xs) (messageId m)")
  case None
  then show ?thesis by (simp add: replaceOne_def)
next
  case (Some idx)
  assume "i < length xs"
  with Some show ?thesis by (simp add: replaceOne_def nth_list_update)
qed

lemma replaceLoop_ids: "map messageId (replaceLoop ms xs) = map messageId xs"
proof (induction ms arbitrary: xs)
  case Nil
  then show ?case by simp
next
  case (Cons m ms)
  show ?case unfolding replaceLoop.simps(2) Cons.IH by (rule replaceOne_ids)
qed

lemma replaceLoop_length: "length (replaceLoop ms xs) = length xs"
  using replaceLoop_ids[of ms xs] by (metis length_map)

lemma replaceOne_length: "length (replaceOne m xs) = length xs"
  using replaceOne_ids[of m xs] by (metis length_map)

lemma replaceLoop_touched:
  "i < length xs \<Longrightarrow> replaceLoop ms xs ! i \<noteq> xs ! i \<Longrightarrow>
   \<exists>m \<in> set ms. indexOf (map messageId xs) (messageId m) = Some i \<and>
               replaceLoop ms xs ! i \<in> set ms"
proof (induction ms arbitrary: xs)
  case Nil
  then show ?case by simp
next
  case (Cons m ms)
  let ?xs' = "replaceOne m xs"
  have len: "i < length ?xs'" using Cons.prems(1) by (simp add: replaceOne_length)
  show ?case
  proof (cases "replaceLoop ms ?xs' ! i = ?xs' ! i")
    case False
    from Cons.IH[OF len False] show ?thesis
      by (auto simp: replaceLoop.simps(2) replaceOne_ids)
  next
    case True
    with Cons.prems(2) have ne: "?xs' ! i \<noteq> xs ! i" by (simp add: replaceLoop.simps(2))
    then have "indexOf (map messageId xs) (messageId m) = Some i"
      using replaceOne_nth[OF Cons.prems(1), of m] by (auto split: if_splits)
    moreover from this have "?xs' ! i = m"
      using replaceOne_nth[OF Cons.prems(1), of m] by simp
    ultimately show ?thesis using True by (simp add: replaceLoop.simps(2))
  qed
qed

lemma replaceLoop_agree:
  "map messageId xs = map messageId ys \<Longrightarrow>
   (\<forall>i < length xs. xs ! i \<noteq> ys ! i \<longrightarrow>
      (\<exists>m \<in> set ms. indexOf (map messageId xs) (messageId m) = Some i)) \<Longrightarrow>
   replaceLoop ms xs = replaceLoop ms ys"
proof (induction ms arbitrary: xs ys)
  case Nil
  from Nil.prems(1) have "length xs = length ys" by (metis length_map)
  moreover from Nil.prems(2) have "\<forall>i < length xs. xs ! i = ys ! i" by simp
  ultimately have "xs = ys" by (simp add: nth_equalityI)
  then show ?case by simp
next
  case (Cons m ms)
  from Cons.prems(1) have len: "length xs = length ys" by (metis length_map)
  have ids: "map messageId (replaceOne m xs) = map messageId (replaceOne m ys)"
    using Cons.prems(1) by (simp add: replaceOne_ids)
  have "\<forall>i < length (replaceOne m xs). replaceOne m xs ! i \<noteq> replaceOne m ys ! i \<longrightarrow>
      (\<exists>m' \<in> set ms. indexOf (map messageId (replaceOne m xs)) (messageId m') = Some i)"
  proof (intro allI impI)
    fix i assume i: "i < length (replaceOne m xs)"
      and ne: "replaceOne m xs ! i \<noteq> replaceOne m ys ! i"
    from i have ix: "i < length xs" by (simp add: replaceOne_length)
    with len have iy: "i < length ys" by simp
    from ne replaceOne_nth[OF ix, of m] replaceOne_nth[OF iy, of m] Cons.prems(1)
    have not_m: "indexOf (map messageId xs) (messageId m) \<noteq> Some i" and "xs ! i \<noteq> ys ! i"
      by (auto split: if_splits)
    with Cons.prems(2) ix obtain m' where
      "m' \<in> set (m # ms)" "indexOf (map messageId xs) (messageId m') = Some i"
      by blast
    with not_m have "m' \<in> set ms" by auto
    with \<open>indexOf (map messageId xs) (messageId m') = Some i\<close>
    show "\<exists>m' \<in> set ms. indexOf (map messageId (replaceOne m xs)) (messageId m') = Some i"
      by (auto simp: replaceOne_ids)
  qed
  from Cons.IH[OF ids this] show ?case by (simp only: replaceLoop.simps(2))
qed

lemma replaceLoop_idem: "replaceLoop ms (replaceLoop ms xs) = replaceLoop ms xs"
proof (rule replaceLoop_agree)
  show "map messageId (replaceLoop ms xs) = map messageId xs" by (rule replaceLoop_ids)
  show "\<forall>i < length (replaceLoop ms xs). replaceLoop ms xs ! i \<noteq> xs ! i \<longrightarrow>
      (\<exists>m \<in> set ms. indexOf (map messageId (replaceLoop ms xs)) (messageId m) = Some i)"
    using replaceLoop_touched[of _ xs ms]
    by (auto simp: replaceLoop_ids replaceLoop_length)
qed

lemma replaceMessages_result:
  assumes "map_of (chats st) key = Some e"
  shows "replaceMessages key msgs st =
           Inr (st\<lparr>chats := AList.update key
                  (e\<lparr>messages := replaceLoop msgs (messages e)\<rparr>) (chats st)\<rparr>)"
proof (cases "msgs = []")
  case True
  have "AList.update key e (chats st) = chats st" using assms by (rule update_same)
  with True show ?thesis by (simp add: replaceMessages_def)
next
  case False
  with assms show ?thesis by (simp add: replaceMessages_def produceEntry_def)
qed

lemma lacksId_messageId: "messageId m = messageId m' \<Longrightarrow> lacksId m = lacksId m'"
  by (simp add: lacksId_def)

lemma usecaseOf_nonempty: "key \<noteq> [] \<Longrightarrow> usecaseOf key \<noteq> []"
  by (simp add: usecaseOf_def split: option.splits)

text \<open>
  Claim C3, as amended. Let the view have a conversation and let \<open>uuid()\<close> return
  non-empty strings. Assigning ids succeeds and keeps the length of the list; a message
  that lacked an id has one afterwards and carries the tag of the view key, which is
  non-empty when the key is; a message that had an id is untouched. Merging any list of
  canonical records then succeeds, keeps the length and keeps the id at every position:
  each message is the one from before the merge or a canonical record with its id, and
  every message has an id. Merging the same records again changes nothing, and assigning
  ids again assigns none and yields an empty batch.
\<close>

theorem reconciliation_assigns_and_keeps_ids:
  assumes view: "map_of (chats st) key = Some e"
    and fresh: "\<forall>k. gen k \<noteq> []"
  shows "\<exists>batch st1 e1 st2 e2.
      addMessageIdsToUnrecordedMessages gen key st = Inr (batch, st1) \<and>
      map_of (chats st1) key = Some e1 \<and>
      replaceMessages key canonical st1 = Inr st2 \<and>
      map_of (chats st2) key = Some e2 \<and>
      length (messages e1) = length (messages e) \<and>
      length (messages e2) = length (messages e) \<and>
      (\<forall>i < length (messages e).
         (lacksId (messages e ! i) \<longrightarrow>
            \<not> lacksId (messages e1 ! i) \<and>
            usecase (messages e1 ! i) = Some (usecaseOf key) \<and>
            (key \<noteq> [] \<longrightarrow> usecaseOf key \<noteq> [])) \<and>
         (\<not> lacksId (messages e ! i) \<longrightarrow> messages e1 ! i = messages e ! i) \<and>
         \<not> lacksId (messages e2 ! i) \<and>
         messageId (messages e2 ! i) = messageId (messages e1 ! i) \<and>
         (messages e2 ! i = messages e1 ! i \<or> messages e2 ! i \<in> set canonical)) \<and>
      replaceMessages key canonical st2 = Inr st2 \<and>
      (\<forall>gen'. addMessageIdsToUnrecordedMessages gen' key st2 = Inr ([], st2))"
proof -
  let ?ms = "messages e"
  let ?ms1 = "fst (addIdsLoop gen 0 key ?ms)"
  let ?batch = "snd (addIdsLoop gen 0 key ?ms)"
  let ?ms2 = "replaceLoop canonical ?ms1"
  define e1 where "e1 = e\<lparr>messages := ?ms1\<rparr>"
  define st1 where "st1 = st\<lparr>chats := AList.update key e1 (chats st)\<rparr>"
  define e2 where "e2 = e\<lparr>messages := ?ms2\<rparr>"
  define st2 where "st2 = st\<lparr>chats := AList.update key e2 (chats st)\<rparr>"
  have m1: "messages e1 = ?ms1" and m2: "messages e2 = ?ms2"
    by (simp_all add: e1_def e2_def)
  have a: "addMessageIdsToUnrecordedMessages gen key st = Inr (?batch, st1)"
    using addMessageIds_result[OF view, of gen] by (simp add: st1_def e1_def)
  have l1: "map_of (chats st1) key = Some e1" by (simp add: st1_def update_conv')
  have l2: "map_of (chats st2) key = Some e2" by (simp add: st2_def update_conv')
  have r: "replaceMessages key canonical st1 = Inr st2"
    using replaceMessages_result[OF l1, of canonical]
    by (simp add: st1_def st2_def e1_def e2_def update_twice)
  have len1: "length (messages e1) = length ?ms" by (simp add: m1 addIdsLoop_length)
  have len2: "length (messages e2) = length ?ms"
    by (simp add: m2 addIdsLoop_length replaceLoop_length)
  have ids: "map messageId ?ms2 = map messageId ?ms1" by (rule replaceLoop_ids)
  have each: "(lacksId (?ms ! i) \<longrightarrow>
            \<not> lacksId (messages e1 ! i) \<and>
            usecase (messages e1 ! i) = Some (usecaseOf key) \<and>
            (key \<noteq> [] \<longrightarrow> usecaseOf key \<noteq> [])) \<and>
         (\<not> lacksId (?ms ! i) \<longrightarrow> messages e1 ! i = ?ms ! i) \<and>
         \<not> lacksId (messages e2 ! i) \<and>
         messageId (messages e2 ! i) = messageId (messages e1 ! i) \<and>
         (messages e2 ! i = messages e1 ! i \<or> messages e2 ! i \<in> set canonical)"
    if i: "i < length ?ms" for i
  proof -
    have i1: "i < length ?ms1" using i by (simp add: addIdsLoop_length)
    have n1: "\<not> lacksId (?ms1 ! i)"
      using fresh by (simp add: addIdsLoop_nth[OF i] lacksId_def)
    have same: "messageId (?ms2 ! i) = messageId (?ms1 ! i)"
      using ids i1 by (metis length_map nth_map)
    then have n2: "\<not> lacksId (?ms2 ! i)" using n1 lacksId_messageId by blast
    have from_canonical: "?ms2 ! i = ?ms1 ! i \<or> ?ms2 ! i \<in> set canonical"
      using replaceLoop_touched[OF i1, of canonical] by blast
    have assigned: "lacksId (?ms ! i) \<Longrightarrow> usecase (?ms1 ! i) = Some (usecaseOf key)"
      by (simp add: addIdsLoop_nth[OF i])
    have kept: "\<not> lacksId (?ms ! i) \<Longrightarrow> ?ms1 ! i = ?ms ! i"
      by (simp add: addIdsLoop_nth[OF i])
    from n1 n2 same from_canonical assigned kept usecaseOf_nonempty[of key]
    show ?thesis unfolding m1 m2 by blast
  qed
  have replay: "replaceMessages key canonical st2 = Inr st2"
    using replaceMessages_result[OF l2, of canonical]
    by (simp add: st2_def e2_def replaceLoop_idem update_twice)
  have again: "addMessageIdsToUnrecordedMessages gen' key st2 = Inr ([], st2)" for gen'
  proof -
    have "\<forall>m \<in> set ?ms2. \<not> lacksId m"
    proof
      fix m assume "m \<in> set ?ms2"
      then obtain i where "i < length ?ms2" "?ms2 ! i = m" by (auto simp: in_set_conv_nth)
      with each[of i] show "\<not> lacksId m"
        by (simp add: m2 replaceLoop_length addIdsLoop_length)
    qed
    then have "addIdsLoop gen' 0 key ?ms2 = (?ms2, [])" by (rule addIdsLoop_no_lack)
    with addMessageIds_result[OF l2, of gen'] show ?thesis
      by (simp add: st2_def e2_def update_twice)
  qed
  from a l1 r l2 len1 len2 each replay again show ?thesis by blast
qed


theorem reconciliation_assigns_and_keeps_ids_witness:
  "addMessageIdsToUnrecordedMessages (uuid exampleApi) ''/chat''
     \<lparr>chats = [(''/chat'', \<lparr>chat = Some \<lparr>chatId = ''c1'', title = ''T''\<rparr>,
        messages = [(unrecorded System ''s'')\<lparr>messageId := Some ''m0'', usecase := Some ''/chat''\<rparr>,
                    unrecorded User ''Hello'']\<rparr>)],
      modelIds = [], loading = []\<rparr> =
   Inr ([(unrecorded User ''Hello'')\<lparr>messageId := Some ''u'', usecase := Some ''/chat''\<rparr>],
        \<lparr>chats = [(''/chat'', \<lparr>chat = Some \<lparr>chatId = ''c1'', title = ''T''\<rparr>,
           messages = [(unrecorded System ''s'')\<lparr>messageId := Some ''m0'', usecase := Some ''/chat''\<rparr>,
                       (unrecorded User ''Hello'')\<lparr>messageId := Some ''u'', usecase := Some ''/chat''\<rparr>]\<rparr>)],
         modelIds = [], loading = []\<rparr>) \<and>
   replaceMessages ''/chat''
     [(unrecorded User ''Hello!'')
        \<lparr>messageId := Some ''u'', usecase := Some ''/chat'', createdDate := Some ''t1''\<rparr>]
     \<lparr>chats = [(''/chat'', \<lparr>chat = Some \<lparr>chatId = ''c1'', title = ''T''\<rparr>,
        messages = [(unrecorded System ''s'')\<lparr>messageId := Some ''m0'', usecase := Some ''/chat''\<rparr>,
                    (unrecorded User ''Hello'')\<lparr>messageId := Some ''u'', usecase := Some ''/chat''\<rparr>]\<rparr>)],
      modelIds = [], loading = []\<rparr> =
   Inr \<lparr>chats = [(''/chat'', \<lparr>chat = Some \<lparr>chatId = ''c1'', title = ''T''\<rparr>,
        messages = [(unrecorded System ''s'')\<lparr>messageId := Some ''m0'', usecase := Some ''/chat''\<rparr>,
                    (unrecorded User ''Hello!'')
                      \<lparr>messageId := Some ''u'', usecase := Some ''/chat'',
                        createdDate := Some ''t1''\<rparr>]\<rparr>)],
      modelIds = [], loading = []\<rparr>"
  using reconciliation_assigns_and_keeps_ids
          [of "\<lparr>chats = [(''/chat'', \<lparr>chat = Some \<lparr>chatId = ''c1'', title = ''T''\<rparr>,
                 messages = [(unrecorded System ''s'')
                               \<lparr>messageId := Some ''m0'', usecase := Some ''/chat''\<rparr>,
                             unrecorded User ''Hello'']\<rparr>)],
                modelIds = [], loading = []\<rparr>"
              "''/chat''"
              "\<lparr>chat = Some \<lparr>chatId = ''c1'', title = ''T''\<rparr>,
                messages = [(unrecorded System ''s'')
                              \<lparr>messageId := Some ''m0'', usecase := Some ''/chat''\<rparr>,
                            unrecorded User ''Hello'']\<rparr>"
              "uuid exampleApi"
              "[(unrecorded User ''Hello!'')
                  \<lparr>messageId := Some ''u'', usecase := Some ''/chat'',
                    createdDate := Some ''t1''\<rparr>]"]
  by (simp add: store_defs)

text \<open>
  Claim C3 as stated fails for the empty view key: it has no path segment, the tag is
  the whole key, and the whole key is empty. The message below lacks an id; after the
  assignment, and after the merge of the record the persistence layer returns for it,
  its id is set and its tag is the empty string.
\<close>

theorem reconciliation_leaves_empty_usecase_tag:
  "addMessageIdsToUnrecordedMessages (uuid exampleApi) []
     \<lparr>chats = [([], \<lparr>chat = Some \<lparr>chatId = ''c1'', title = ''T''\<rparr>,
                  messages = [unrecorded User ''Hello'']\<rparr>)],
      modelIds = [], loading = []\<rparr> =
   Inr ([(unrecorded User ''Hello'')\<lparr>messageId := Some ''u'', usecase := Some []\<rparr>],
        \<lparr>chats = [([], \<lparr>chat = Some \<lparr>chatId = ''c1'', title = ''T''\<rparr>,
                     messages = [(unrecorded User ''Hello'')
                                   \<lparr>messageId := Some ''u'', usecase := Some []\<rparr>]\<rparr>)],
         modelIds = [], loading = []\<rparr>) \<and>
   replaceMessages []
     (createMessages exampleApi ''c1''
        [(unrecorded User ''Hello'')\<lparr>messageId := Some ''u'', usecase := Some []\<rparr>])
     \<lparr>chats = [([], \<lparr>chat = Some \<lparr>chatId = ''c1'', title = ''T''\<rparr>,
                  messages = [(unrecorded User ''Hello'')
                                \<lparr>messageId := Some ''u'', usecase := Some []\<rparr>]\<rparr>)],
      modelIds = [], loading = []\<rparr> =
   Inr \<lparr>chats = [([], \<lparr>chat = Some \<lparr>chatId = ''c1'', title = ''T''\<rparr>,
                  messages = [(unrecorded User ''Hello'')
                                \<lparr>messageId := Some ''u'', usecase := Some [],
                                  createdDate := Some ''t1''\<rparr>]\<rparr>)],
      modelIds = [], loading = []\<rparr>"
  by (simp add: store_defs)

section \<open>Assigned ids are permanent\<close>

lemma applyOp_keeps_ids:
  assumes view: "map_of (chats st) key = Some e"
  shows "\<exists>e'. map_of (chats (applyOp key op st)) key = Some e' \<and>
           length (messages e') = lengthAfter op (length (messages e)) \<and>
           (\<forall>i < keptAfter op (length (messages e)).
              \<not> lacksId (messages e ! i) \<longrightarrow>
              messageId (messages e' ! i) = messageId (messages e ! i))"
proof (cases op)
  case (StreamFragment llm chunk)
  show ?thesis
  proof (cases "messages e = []")
    case True
    with view have "applyOp key op st = st"
      by (simp add: StreamFragment streamStep_def produceEntry_def)
    with view True show ?thesis by (simp add: StreamFragment)
  next
    case False
    then obtain ms a where ms: "messages e = ms @ [a]" by (metis rev_exhaust)
    from streamStep_result[OF view ms, of llm chunk] view ms show ?thesis
      by (simp add: StreamFragment update_conv' nth_append)
  qed
next
  case (AssignIds gen)
  from addMessageIds_result[OF view, of gen] show ?thesis
    by (simp add: AssignIds update_conv' addIdsLoop_length addIdsLoop_nth)
next
  case (MergeRecords msgs)
  have "\<forall>i < length (messages e).
          messageId (replaceLoop msgs (messages e) ! i) = messageId (messages e ! i)"
    using replaceLoop_ids[of msgs "messages e"] by (metis length_map nth_map)
  with replaceMessages_result[OF view, of msgs] show ?thesis
    by (simp add: MergeRecords update_conv' replaceLoop_length)
next
  case (Feedback api created fb)
  show ?thesis
  proof (cases "chat e")
    case None
    with view show ?thesis by (simp add: Feedback sendFeedback_def)
  next
    case (Some c)
    let ?m = "updateFeedback api (chatId c) created fb"
    have "\<forall>i < length (messages e).
          messageId (replaceLoop [?m] (messages e) ! i) = messageId (messages e ! i)"
      using replaceLoop_ids[of "[?m]" "messages e"] by (metis length_map nth_map)
    with replaceMessages_result[OF view, of "[?m]"] view Some show ?thesis
      by (simp add: Feedback sendFeedback_def update_conv' replaceLoop_length
            del: replaceLoop.simps)
  qed
next
  case (Push r c)
  with view show ?thesis
    by (simp add: pushMessage_def produceEntry_def update_conv' nth_append)
next
  case Pop
  with view show ?thesis
    by (simp add: popMessage_def update_conv' nth_butlast)
qed

lemma applyOp_never_reassigns:
  assumes view: "map_of (chats st) key = Some e"
    and after: "map_of (chats (applyOp key op st)) key = Some e'"
    and i: "i < length (messages e)" "i < length (messages e')"
    and x: "messageId (messages e ! i) = Some x" "x \<noteq> []"
    and y: "messageId (messages e' ! i) = Some y"
  shows "y = x"
proof (cases "i < keptAfter op (length (messages e))")
  case True
  from x have "\<not> lacksId (messages e ! i)" by (simp add: lacksId_def)
  with applyOp_keeps_ids[OF view, of op] after True x(1) y show ?thesis by auto
next
  case False
  from applyOp_keeps_ids[OF view, of op] after
  have len: "length (messages e') = lengthAfter op (length (messages e))" by auto
  show ?thesis
  proof (cases op)
    case (StreamFragment llm chunk)
    from i(1) obtain ms a where ms: "messages e = ms @ [a]"
      by (cases "messages e" rule: rev_cases) auto
    with False i(1) StreamFragment have last: "i = length ms" by simp
    let ?E = "e\<lparr>messages := ms @
                [(unrecorded Assistant (stripOutputTags (content a @ chunk)))
                   \<lparr>llmType := Some llm\<rparr>]\<rparr>"
    have "applyOp key op st = st\<lparr>chats := AList.update key ?E (chats st)\<rparr>"
      using streamStep_result[OF view ms, of llm chunk] StreamFragment by simp
    with after have "e' = ?E" by (simp add: update_conv')
    with y last show ?thesis by (simp add: unrecorded_def)
  next
    case Pop
    with False i(1) have "i = length (messages e) - 1" by simp
    with len Pop i(2) show ?thesis by simp
  qed (use False i in simp_all)
qed

lemma runOps_keeps_ids:
  assumes "map_of (chats st) key = Some e"
    and "i < keptPrefix ops (length (messages e))"
    and "messageId (messages e ! i) = Some x" and "x \<noteq> []"
  shows "\<exists>e'. map_of (chats (runOps key ops st)) key = Some e' \<and>
              i < length (messages e') \<and> messageId (messages e' ! i) = Some x"
  using assms
proof (induction ops arbitrary: st e)
  case Nil
  then show ?case by simp
next
  case (Cons op ops)
  from applyOp_keeps_ids[OF Cons.prems(1), of op] obtain e' where
    e': "map_of (chats (applyOp key op st)) key = Some e'"
    and len: "length (messages e') = lengthAfter op (length (messages e))"
    and keep: "\<forall>i < keptAfter op (length (messages e)).
              \<not> lacksId (messages e ! i) \<longrightarrow>
              messageId (messages e' ! i) = messageId (messages e ! i)"
    by blast
  from Cons.prems(2) have i1: "i < keptAfter op (length (messages e))"
    and i2: "i < keptPrefix ops (length (messages e'))"
    by (simp_all add: len)
  from Cons.prems(3,4) have "\<not> lacksId (messages e ! i)" by (simp add: lacksId_def)
  with keep i1 Cons.prems(3) have "messageId (messages e' ! i) = Some x" by simp
  from Cons.IH[OF e' i2 this Cons.prems(4)] show ?case by simp
qed

text \<open>
  Claim C9, as amended. Take a message of a view with a non-empty id. Through any
  sequence of streaming turns, id assignments, merges of canonical records, feedback
  updates, pushes and pops during which the message is never popped (by \<open>popMessage\<close>,
  or as the trailing message of a streaming turn), it stays in the list, at its
  position, with the same id. And after any single one of these operations the message
  at its position, if there is one and it has an id, has that same id: no operation
  puts a different id in the place of an assigned one.
\<close>

theorem assigned_ids_are_permanent:
  assumes "map_of (chats st) key = Some e"
    and "messageId (messages e ! i) = Some x" and "x \<noteq> []"
  shows "(i < keptPrefix ops (length (messages e)) \<longrightarrow>
            (\<exists>e'. map_of (chats (runOps key ops st)) key = Some e' \<and>
                  i < length (messages e') \<and> messageId (messages e' ! i) = Some x)) \<and>
         (\<forall>op e' y. map_of (chats (applyOp key op st)) key = Some e' \<and>
                     i < length (messages e) \<and> i < length (messages e') \<and>
                     messageId (messages e' ! i) = Some y \<longrightarrow> y = x)"
proof (intro conjI impI allI)
  assume "i < keptPrefix ops (length (messages e))"
  with assms show "\<exists>e'. map_of (chats (runOps key ops st)) key = Some e' \<and>
                  i < length (messages e') \<and> messageId (messages e' ! i) = Some x"
    by (intro runOps_keeps_ids)
next
  fix op e' y
  assume "map_of (chats (applyOp key op st)) key = Some e' \<and>
          i < length (messages e) \<and> i < length (messages e') \<and>
          messageId (messages e' ! i) = Some y"
  with assms show "y = x" using applyOp_never_reassigns by blast
qed

theorem assigned_ids_are_permanent_witness:
  "keptPrefix
     [Push User ''Hello'', Push Assistant [], StreamFragment ''modelA'' ''Hi'',
      AssignIds (uuid exampleApi),
      MergeRecords [(unrecorded System ''s2'')
                      \<lparr>messageId := Some ''m0'', createdDate := Some ''t0''\<rparr>],
      Feedback exampleApi ''t1'' ''good'', Pop] 2 = 2 \<and>
   runOps ''/chat''
     [Push User ''Hello'', Push Assistant [], StreamFragment ''modelA'' ''Hi'',
      AssignIds (uuid exampleApi),
      MergeRecords [(unrecorded System ''s2'')
                      \<lparr>messageId := Some ''m0'', createdDate := Some ''t0''\<rparr>],
      Feedback exampleApi ''t1'' ''good'', Pop]
     \<lparr>chats = [(''/chat'', \<lparr>chat = Some \<lparr>chatId = ''c1'', title = ''T''\<rparr>,
        messages = [(unrecorded System ''s'')\<lparr>messageId := Some ''m0'', usecase := Some ''/chat''\<rparr>,
                    unrecorded User ''Hello'']\<rparr>)],
      modelIds = [], loading = []\<rparr> =
   \<lparr>chats = [(''/chat'', \<lparr>chat = Some \<lparr>chatId = ''c1'', title = ''T''\<rparr>,
        messages = [(unrecorded System ''s2'')
                      \<lparr>messageId := Some ''m0'', createdDate := Some ''t0''\<rparr>,
                    (unrecorded User ''Hello'')\<lparr>messageId := Some ''u'', usecase := Some ''/chat''\<rparr>,
                    (unrecorded User ''Hello'')
                      \<lparr>messageId := Some ''ux'', usecase := Some ''/chat''\<rparr>]\<rparr>)],
      modelIds = [], loading = []\<rparr>"
  using assigned_ids_are_permanent
          [of "\<lparr>chats = [(''/chat'', \<lparr>chat = Some \<lparr>chatId = ''c1'', title = ''T''\<rparr>,
                 messages = [(unrecorded System ''s'')
                               \<lparr>messageId := Some ''m0'', usecase := Some ''/chat''\<rparr>,
                             unrecorded User ''Hello'']\<rparr>)],
                modelIds = [], loading = []\<rparr>"
              "''/chat''"
              "\<lparr>chat = Some \<lparr>chatId = ''c1'', title = ''T''\<rparr>,
                messages = [(unrecorded System ''s'')
                              \<lparr>messageId := Some ''m0'', usecase := Some ''/chat''\<rparr>,
                            unrecorded User ''Hello'']\<rparr>"
              0 "''m0''"
              "[Push User ''Hello'', Push Assistant [], StreamFragment ''modelA'' ''Hi'',
                AssignIds (uuid exampleApi),
                MergeRecords [(unrecorded System ''s2'')
                                \<lparr>messageId := Some ''m0'', createdDate := Some ''t0''\<rparr>],
                Feedback exampleApi ''t1'' ''good'', Pop]"]
  by (simp add: store_defs sendFeedback_def pushMessage_def popMessage_def)

text \<open>
  Claim C9 as stated fails when two posts on one view overlap; nothing excludes it, the
  loading flag is cleared before the first post awaits the creation of the chat. Below,
  the first post has pushed its two messages and streamed \<open>Hi\<close>; the second post pushes
  its two messages; the first post then assigns ids, also to the placeholder of the
  second, which gets \<open>uxxxx\<close>. The next streaming turn of the second post pops that
  message and pushes one without an id, and the reconciliation of the second post
  identifies it anew: the trailing assistant message now has the id \<open>v\<close>.
\<close>

theorem streaming_turn_drops_assigned_id:
  "runOps ''/chat''
     [Push User ''Hello'', Push Assistant [], StreamFragment ''modelA'' ''Hi'',
      Push User ''More'', Push Assistant [], AssignIds (uuid exampleApi)]
     (init exampleContext ''/chat'' initialState) =
   \<lparr>chats = [(''/chat'', \<lparr>chat = None,
        messages =
          [(unrecorded System ''You are an assistant.'')
             \<lparr>messageId := Some ''u'', usecase := Some ''/chat''\<rparr>,
           (unrecorded User ''Hello'')\<lparr>messageId := Some ''ux'', usecase := Some ''/chat''\<rparr>,
           (unrecorded Assistant ''Hi'')
             \<lparr>llmType := Some ''modelA'', messageId := Some ''uxx'', usecase := Some ''/chat''\<rparr>,
           (unrecorded User ''More'')\<lparr>messageId := Some ''uxxx'', usecase := Some ''/chat''\<rparr>,
           (unrecorded Assistant [])
             \<lparr>messageId := Some ''uxxxx'', usecase := Some ''/chat''\<rparr>]\<rparr>)],
      modelIds = [], loading = []\<rparr> \<and>
   runOps ''/chat''
     [Push User ''Hello'', Push Assistant [], StreamFragment ''modelA'' ''Hi'',
      Push User ''More'', Push Assistant [], AssignIds (uuid exampleApi),
      StreamFragment ''modelA'' ''Yo'', AssignIds laterUuid]
     (init exampleContext ''/chat'' initialState) =
   \<lparr>chats = [(''/chat'', \<lparr>chat = None,
        messages =
          [(unrecorded System ''You are an assistant.'')
             \<lparr>messageId := Some ''u'', usecase := Some ''/chat''\<rparr>,
           (unrecorded User ''Hello'')\<lparr>messageId := Some ''ux'', usecase := Some ''/chat''\<rparr>,
           (unrecorded Assistant ''Hi'')
             \<lparr>llmType := Some ''modelA'', messageId := Some ''uxx'', usecase := Some ''/chat''\<rparr>,
           (unrecorded User ''More'')\<lparr>messageId := Some ''uxxx'', usecase := Some ''/chat''\<rparr>,
           (unrecorded Assistant ''Yo'')
             \<lparr>llmType := Some ''modelA'', messageId := Some ''v'',
               usecase := Some ''/chat''\<rparr>]\<rparr>)],
      modelIds = [], loading = []\<rparr>"
  by (simp add: store_defs pushMessage_def init_def initialState_def
        initChatWithSystemContext_def initChat_def getModelId_def exampleContext_def
        laterUuid_def)

end
